theory Spec2Isabelle
  imports Main "HOL-Library.Sublist" "HOL-Library.Multiset"
begin

section \<open>JavaScript strings\<close>

text \<open>
  A JavaScript string is a sequence of UTF-16 code units. The model works on HOL strings,
  that is on the code units below 256 (Latin-1); on these \<open>toLowerCase\<close> acts unit by
  unit and the classes \<open>\w\<close> and \<open>\s\<close> of a regular expression without the \<open>i\<close> and \<open>u\<close>
  flags are the ones written out below.
\<close>

definition is_word_char :: "char \<Rightarrow> bool" where
  \<comment> \<open>\<open>\w\<close>: \<open>[A-Za-z0-9_]\<close>\<close>
  "is_word_char c \<longleftrightarrow>
     (let n = (of_char c :: nat)
      in (65 \<le> n \<and> n \<le> 90) \<or> (97 \<le> n \<and> n \<le> 122) \<or> (48 \<le> n \<and> n \<le> 57) \<or> n = 95)"

definition is_space :: "char \<Rightarrow> bool" where
  \<comment> \<open>\<open>\s\<close>, and what \<open>trim\<close> strips: TAB, LF, VT, FF, CR, SPACE, NBSP\<close>
  "is_space c \<longleftrightarrow> (let n = (of_char c :: nat) in (9 \<le> n \<and> n \<le> 13) \<or> n = 32 \<or> n = 160)"

definition lower_char :: "char \<Rightarrow> char" where
  "lower_char c =
     (let n = (of_char c :: nat)
      in if (65 \<le> n \<and> n \<le> 90) \<or> (192 \<le> n \<and> n \<le> 222 \<and> n \<noteq> 215)
         then char_of (n + 32) else c)"

definition toLowerCase :: "string \<Rightarrow> string" where
  "toLowerCase s = map lower_char s"

definition rel_index :: "nat \<Rightarrow> int \<Rightarrow> nat" where
  \<comment> \<open>how \<open>slice\<close> reads an index: negative counts from the end, everything is clamped.
      Indices are integers, as \<open>selectionStart\<close>, \<open>length\<close> and the results of \<open>indexOf\<close>
      are.\<close>
  "rel_index len i = (if i < 0 then nat (max (int len + i) 0) else min (nat i) len)"

definition slice :: "'a list \<Rightarrow> int \<Rightarrow> int \<Rightarrow> 'a list" where
  \<comment> \<open>\<open>s.slice(a, b)\<close>, for strings and for arrays\<close>
  "slice s a b =
     (let i = rel_index (length s) a; j = rel_index (length s) b in take (j - i) (drop i s))"


definition startsWith :: "string \<Rightarrow> string \<Rightarrow> bool" where
  "startsWith s p = prefix p s"

definition endsWith :: "string \<Rightarrow> string \<Rightarrow> bool" where
  "endsWith s p = suffix p s"

definition includes_str :: "string \<Rightarrow> string \<Rightarrow> bool" where
  "includes_str s sub = sublist sub s"



definition trimStart :: "string \<Rightarrow> string" where
  "trimStart s = dropWhile is_space s"

definition trimEnd :: "string \<Rightarrow> string" where
  "trimEnd s = rev (dropWhile is_space (rev s))"

definition trim :: "string \<Rightarrow> string" where
  "trim s = trimEnd (trimStart s)"

function collapse_spaces :: "string \<Rightarrow> string" where
  \<comment> \<open>\<open>s.replace(/\s+/g, ' ')\<close>: every maximal run of white space becomes one space\<close>
  "collapse_spaces [] = []"
| "collapse_spaces (c # cs) =
     (if is_space c then CHR '' '' # collapse_spaces (dropWhile is_space cs)
      else c # collapse_spaces cs)"
  by pat_completeness auto
termination
  by (relation "measure length") (auto simp: less_Suc_eq_le length_dropWhile_le)

definition join :: "string \<Rightarrow> string list \<Rightarrow> string" where
  \<comment> \<open>\<open>parts.join(sep)\<close>\<close>
  "join sep parts = (case parts of [] \<Rightarrow> [] | p # ps \<Rightarrow> p @ concat (map (\<lambda>x. sep @ x) ps))"

section \<open>Types of the omnibar\<close>

record FilterState =
  search :: string
  groups :: "string list"
  excludeGroups :: "string list"
  scalers :: "string list"
  excludeScalers :: "string list"
  generator :: "bool option"
  creators :: "string list"
  excludeCreators :: "string list"
  used :: "bool option"
  pipelines :: "string list"
  excludePipelines :: "string list"

record ParsedToken =
  key :: string
  "value" :: string
  negated :: bool
  raw :: string


definition DEFAULT_FILTER_STATE :: FilterState where
  "DEFAULT_FILTER_STATE =
     \<lparr>search = '''', groups = [], excludeGroups = [], scalers = [], excludeScalers = [],
      generator = None, creators = [], excludeCreators = [], used = None, pipelines = [],
      excludePipelines = []\<rparr>"

section \<open>The tokenizer\<close>

text \<open>
  \<open>TOKEN_PATTERN = /(-?)(\w+):("[^"]*"|[^\s]+)/g\<close>. The pattern has no look-behind, so
  whether it matches at an index depends only on the input from that index on; the matcher
  therefore works on the suffix \<open>input.slice(lastIndex)\<close>. A capture of a match is a string,
  or \<open>undefined\<close> (here \<open>None\<close>) when its group took no part in the match.

  The pattern is one global object whose \<open>lastIndex\<close> is shared: \<open>parseInput\<close> sets it to 0
  before its loop and \<open>replace\<close> starts from 0 by itself, and both leave it at 0 (the last
  \<open>exec\<close> finds nothing), so every call starts on the whole input.
\<close>

record RegExpMatch =
  m0 :: string
  m1 :: "string option"
  m2 :: "string option"
  m3 :: "string option"

datatype error = TypeError

definition match_quoted :: "string \<Rightarrow> (string \<times> string) option" where
  \<comment> \<open>\<open>"[^"]*"\<close>: the matched text and what follows it\<close>
  "match_quoted s =
     (case s of
        [] \<Rightarrow> None
      | c # cs \<Rightarrow>
          if c = CHR 0x22 then
            (case dropWhile (\<lambda>x. x \<noteq> CHR 0x22) cs of
               [] \<Rightarrow> None
             | d # rest \<Rightarrow> Some (c # takeWhile (\<lambda>x. x \<noteq> CHR 0x22) cs @ [d], rest))
          else None)"

definition match_nonspace :: "string \<Rightarrow> (string \<times> string) option" where
  \<comment> \<open>\<open>[^\s]+\<close>, greedy: nothing follows it in the pattern, so the longest run is taken\<close>
  "match_nonspace s =
     (let v = takeWhile (\<lambda>x. \<not> is_space x) s
      in if v = [] then None else Some (v, dropWhile (\<lambda>x. \<not> is_space x) s))"

definition match_value :: "string \<Rightarrow> (string \<times> string) option" where
  \<comment> \<open>the alternation of group 3, left alternative first\<close>
  "match_value s = (case match_quoted s of Some r \<Rightarrow> Some r | None \<Rightarrow> match_nonspace s)"

definition match_key_value :: "string \<Rightarrow> string \<Rightarrow> (RegExpMatch \<times> string) option" where
  \<comment> \<open>\<open>(\w+):(...)\<close> after group 1 has matched \<open>neg\<close>. \<open>\w+\<close> is greedy; giving back
      a character never helps, since the character after a shorter key is a word
      character and not the colon.\<close>
  "match_key_value neg s =
     (let k = takeWhile is_word_char s
      in if k = [] then None
         else (case dropWhile is_word_char s of
                 [] \<Rightarrow> None
               | c # r \<Rightarrow>
                   if c = CHR '':'' then
                     (case match_value r of
                        None \<Rightarrow> None
                      | Some (v, rest) \<Rightarrow>
                          Some (\<lparr>m0 = neg @ k @ '':'' @ v, m1 = Some neg, m2 = Some k,
                                 m3 = Some v\<rparr>, rest))
                   else None))"

definition match_at :: "string \<Rightarrow> (RegExpMatch \<times> string) option" where
  \<comment> \<open>the whole pattern at the start of \<open>s\<close>: \<open>-?\<close> first tries to take the dash\<close>
  "match_at s =
     (case (case s of c # cs \<Rightarrow> if c = CHR ''-'' then match_key_value ''-'' cs else None
                    | [] \<Rightarrow> None) of
        Some r \<Rightarrow> Some r
      | None \<Rightarrow> match_key_value '''' s)"

fun exec :: "string \<Rightarrow> (string \<times> RegExpMatch \<times> string) option" where
  \<comment> \<open>\<open>TOKEN_PATTERN.exec(input)\<close> on the suffix at \<open>lastIndex\<close>: the text skipped before
      the leftmost match, the match, and the suffix at the new \<open>lastIndex\<close>\<close>
  "exec [] = (case match_at [] of Some (m, rest) \<Rightarrow> Some ([], m, rest) | None \<Rightarrow> None)"
| "exec (c # cs) =
     (case match_at (c # cs) of
        Some (m, rest) \<Rightarrow> Some ([], m, rest)
      | None \<Rightarrow>
          (case exec cs of
             None \<Rightarrow> None
           | Some (skipped, m, rest) \<Rightarrow> Some (c # skipped, m, rest)))"

definition make_token :: "RegExpMatch \<Rightarrow> error + ParsedToken" where
  \<comment> \<open>the body of the loop of \<open>parseInput\<close>; calling a method on an \<open>undefined\<close>
      capture is a TypeError\<close>
  "make_token m =
     (case m2 m of
        None \<Rightarrow> Inl TypeError
      | Some g2 \<Rightarrow>
          (case m3 m of
             None \<Rightarrow> Inl TypeError
           | Some g3 \<Rightarrow>
               Inr \<lparr>key = toLowerCase g2,
                    value = (if startsWith g3 [CHR 0x22] \<and> endsWith g3 [CHR 0x22]
                             then slice g3 1 (- 1) else g3),
                    negated = (m1 m = Some ''-''),
                    raw = m0 m\<rparr>))"

lemma match_value_shorter:
  assumes "match_value s = Some (v, rest)"
  shows "length rest < length s"
proof (cases "match_quoted s")
  case None
  with assms have v: "takeWhile (\<lambda>x. \<not> is_space x) s \<noteq> []"
    and r: "rest = dropWhile (\<lambda>x. \<not> is_space x) s"
    by (auto simp: match_value_def match_nonspace_def Let_def split: if_splits)
  have "length s = length (takeWhile (\<lambda>x. \<not> is_space x) s) + length rest"
    unfolding r by (metis length_append takeWhile_dropWhile_id)
  with v show ?thesis by simp
next
  case (Some a)
  with assms obtain c cs d where s: "s = c # cs"
    and d: "dropWhile (\<lambda>x. x \<noteq> CHR 0x22) cs = d # rest"
    by (auto simp: match_value_def match_quoted_def split: list.splits if_splits)
  have "length (d # rest) \<le> length cs"
    by (metis d length_dropWhile_le)
  with s show ?thesis by simp
qed

lemma match_key_value_shorter:
  assumes "match_key_value neg s = Some (m, rest)"
  shows "length rest < length s"
proof -
  from assms obtain r v where d: "dropWhile is_word_char s = CHR '':'' # r"
    and v: "match_value r = Some (v, rest)"
    by (auto simp: match_key_value_def Let_def split: if_splits list.splits option.splits)
  have "length (CHR '':'' # r) \<le> length s"
    by (metis d length_dropWhile_le)
  with match_value_shorter [OF v] show ?thesis by simp
qed

lemma match_at_shorter:
  assumes "match_at s = Some (m, rest)"
  shows "length rest < length s"
  using assms
  by (auto simp: match_at_def split: list.splits if_splits option.splits
           dest!: match_key_value_shorter)

lemma exec_shorter: "exec s = Some (skipped, m, rest) \<Longrightarrow> length rest < length s"
proof (induction s arbitrary: skipped)
  case Nil
  then show ?case
    by (auto split: option.splits dest: match_at_shorter)
next
  case (Cons c cs)
  show ?case
  proof (cases "match_at (c # cs)")
    case None
    with Cons.prems obtain sk where "exec cs = Some (sk, m, rest)"
      by (auto split: option.splits)
    from Cons.IH [OF this] show ?thesis by simp
  next
    case (Some a)
    with Cons.prems have "match_at (c # cs) = Some (m, rest)"
      by (auto split: option.splits)
    then show ?thesis by (rule match_at_shorter)
  qed
qed

function parseInput_loop :: "string \<Rightarrow> ParsedToken list \<Rightarrow> error + ParsedToken list" where
  "parseInput_loop rest tokens =
     (case exec rest of
        None \<Rightarrow> Inr tokens
      | Some (skipped, m, rest') \<Rightarrow>
          (case make_token m of
             Inl e \<Rightarrow> Inl e
           | Inr t \<Rightarrow> parseInput_loop rest' (tokens @ [t])))"
  by pat_completeness auto
termination
  by (relation "measure (\<lambda>(rest, tokens). length rest)") (auto dest: exec_shorter)

declare parseInput_loop.simps [simp del]

definition parseInput :: "string \<Rightarrow> error + ParsedToken list" where
  "parseInput input = parseInput_loop input []"

function remove_tokens :: "string \<Rightarrow> string" where
  \<comment> \<open>\<open>input.replace(TOKEN_PATTERN, '')\<close>\<close>
  "remove_tokens s =
     (case exec s of
        None \<Rightarrow> s
      | Some (skipped, m, rest) \<Rightarrow> skipped @ remove_tokens rest)"
  by pat_completeness auto
termination
  by (relation "measure length") (auto dest: exec_shorter)

declare remove_tokens.simps [simp del]

definition extractFreeText :: "string \<Rightarrow> string" where
  "extractFreeText input = collapse_spaces (trim (remove_tokens input))"

section \<open>Tokens to filters and back\<close>

definition tokensToFilters_step :: "string \<Rightarrow> FilterState \<Rightarrow> ParsedToken \<Rightarrow> FilterState" where
  \<comment> \<open>one round of the loop over the tokens: the \<open>switch\<close>, then the \<open>is:\<close> keywords\<close>
  "tokensToFilters_step currentUser filters token =
     (let f1 =
        (if key token = ''group'' then
           (if negated token then filters\<lparr>excludeGroups := excludeGroups filters @ [value token]\<rparr>
            else filters\<lparr>groups := groups filters @ [value token]\<rparr>)
         else if key token = ''scaler'' then
           (if negated token then filters\<lparr>excludeScalers := excludeScalers filters @ [value token]\<rparr>
            else filters\<lparr>scalers := scalers filters @ [value token]\<rparr>)
         else if key token = ''is'' then
           (if toLowerCase (value token) = ''generator''
            then filters\<lparr>generator := Some (\<not> negated token)\<rparr> else filters)
         else if key token = ''generator'' then
           (let isYes = toLowerCase (value token) \<in> set [''yes'', ''true'', ''1''];
                isNo = toLowerCase (value token) \<in> set [''no'', ''false'', ''0'']
            in if isYes then filters\<lparr>generator := Some (\<not> negated token)\<rparr>
               else if isNo then filters\<lparr>generator := Some (negated token)\<rparr>
               else filters)
         else if key token = ''creator'' then
           (let creatorValue =
                  (if value token = ''@me'' \<and> currentUser \<noteq> '''' then currentUser
                   else value token)
            in if negated token
               then filters\<lparr>excludeCreators := excludeCreators filters @ [creatorValue]\<rparr>
               else filters\<lparr>creators := creators filters @ [creatorValue]\<rparr>)
         else if key token = ''pipeline'' then
           (if negated token
            then filters\<lparr>excludePipelines := excludePipelines filters @ [value token]\<rparr>
            else filters\<lparr>pipelines := pipelines filters @ [value token]\<rparr>)
         else filters)
      in if key token = ''is'' then
           (let val = toLowerCase (value token)
            in if val = ''used'' then f1\<lparr>used := Some (\<not> negated token)\<rparr>
               else if val = ''orphan'' then f1\<lparr>used := Some (negated token)\<rparr>
               else f1)
         else f1)"

definition tokensToFilters :: "ParsedToken list \<Rightarrow> string \<Rightarrow> string \<Rightarrow> FilterState" where
  \<comment> \<open>\<open>currentUser\<close> is \<open>''\<close> when the caller gives none\<close>
  "tokensToFilters tokens freeText currentUser =
     foldl (tokensToFilters_step currentUser) (DEFAULT_FILTER_STATE\<lparr>search := freeText\<rparr>) tokens"

definition quote_value :: "string \<Rightarrow> string" where
  \<comment> \<open>\<open>v.includes(' ') ? `"${v}"` : v\<close>\<close>
  "quote_value v = (if includes_str v '' '' then [CHR 0x22] @ v @ [CHR 0x22] else v)"

definition filtersToQueryString :: "FilterState \<Rightarrow> string" where
  "filtersToQueryString filters =
     (let parts = [];
          parts = foldl (\<lambda>ps group. ps @ [''group:'' @ quote_value group]) parts (groups filters);
          parts = foldl (\<lambda>ps group. ps @ [''-group:'' @ quote_value group]) parts
                    (excludeGroups filters);
          parts = foldl (\<lambda>ps scaler. ps @ [''scaler:'' @ scaler]) parts (scalers filters);
          parts = foldl (\<lambda>ps scaler. ps @ [''-scaler:'' @ scaler]) parts (excludeScalers filters);
          parts = (if generator filters = Some True then parts @ [''is:generator'']
                   else if generator filters = Some False then parts @ [''-is:generator'']
                   else parts);
          parts = foldl (\<lambda>ps creator. ps @ [''creator:'' @ quote_value creator]) parts
                    (creators filters);
          parts = foldl (\<lambda>ps creator. ps @ [''-creator:'' @ quote_value creator]) parts
                    (excludeCreators filters);
          parts = (if used filters = Some True then parts @ [''is:used'']
                   else if used filters = Some False then parts @ [''is:orphan'']
                   else parts);
          parts = foldl (\<lambda>ps pipeline. ps @ [''pipeline:'' @ quote_value pipeline]) parts
                    (pipelines filters);
          parts = foldl (\<lambda>ps pipeline. ps @ [''-pipeline:'' @ quote_value pipeline]) parts
                    (excludePipelines filters);
          parts = (if search filters \<noteq> '''' then parts @ [search filters] else parts)
      in join '' '' parts)"

definition parseQueryString :: "string \<Rightarrow> string \<Rightarrow> error + FilterState" where
  "parseQueryString queryString currentUser =
     (case parseInput queryString of
        Inl e \<Rightarrow> Inl e
      | Inr tokens \<Rightarrow> Inr (tokensToFilters tokens (extractFreeText queryString) currentUser))"

section \<open>Suggestions\<close>










section \<open>Removing the last filter\<close>

definition hasActiveFilters :: "FilterState \<Rightarrow> bool" where
  "hasActiveFilters filters \<longleftrightarrow>
     search filters \<noteq> '''' \<or> length (groups filters) > 0 \<or>
     length (excludeGroups filters) > 0 \<or> length (scalers filters) > 0 \<or>
     length (excludeScalers filters) > 0 \<or> generator filters \<noteq> None \<or>
     length (creators filters) > 0 \<or> length (excludeCreators filters) > 0 \<or>
     used filters \<noteq> None \<or> length (pipelines filters) > 0 \<or>
     length (excludePipelines filters) > 0"

definition removeLastFilter :: "FilterState \<Rightarrow> FilterState" where
  \<comment> \<open>the state handed to \<open>onChange\<close>\<close>
  "removeLastFilter filters =
     (if search filters \<noteq> '''' then filters\<lparr>search := ''''\<rparr>
      else if used filters \<noteq> None then filters\<lparr>used := None\<rparr>
      else if generator filters \<noteq> None then filters\<lparr>generator := None\<rparr>
      else if length (excludePipelines filters) > 0
        then filters\<lparr>excludePipelines := slice (excludePipelines filters) 0 (- 1)\<rparr>
      else if length (pipelines filters) > 0
        then filters\<lparr>pipelines := slice (pipelines filters) 0 (- 1)\<rparr>
      else if length (excludeCreators filters) > 0
        then filters\<lparr>excludeCreators := slice (excludeCreators filters) 0 (- 1)\<rparr>
      else if length (creators filters) > 0
        then filters\<lparr>creators := slice (creators filters) 0 (- 1)\<rparr>
      else if length (excludeScalers filters) > 0
        then filters\<lparr>excludeScalers := slice (excludeScalers filters) 0 (- 1)\<rparr>
      else if length (scalers filters) > 0
        then filters\<lparr>scalers := slice (scalers filters) 0 (- 1)\<rparr>
      else if length (excludeGroups filters) > 0
        then filters\<lparr>excludeGroups := slice (excludeGroups filters) 0 (- 1)\<rparr>
      else if length (groups filters) > 0
        then filters\<lparr>groups := slice (groups filters) 0 (- 1)\<rparr>
      else filters)"

definition handleBackspace :: "string \<Rightarrow> FilterState \<Rightarrow> FilterState option" where
  \<comment> \<open>the \<open>Backspace\<close> case of \<open>handleKeyDown\<close>: the state handed to \<open>onChange\<close>, if
      it is called\<close>
  "handleBackspace inputValue filters =
     (if inputValue = '''' \<and> hasActiveFilters filters then Some (removeLastFilter filters)
      else None)"

section \<open>The hook\<close>




section \<open>Definitions used to state and prove the properties\<close>

definition tri_state_part :: "bool option \<Rightarrow> string \<Rightarrow> string \<Rightarrow> string list" where
  \<comment> \<open>the token of a tri-state: none when unset\<close>
  "tri_state_part t yes no = (case t of None \<Rightarrow> [] | Some True \<Rightarrow> [yes] | Some False \<Rightarrow> [no])"

definition ordered_parts :: "FilterState \<Rightarrow> string list" where
  \<comment> \<open>the tokens in the order the specification fixes: groups, scalers, generator,
      creators, used/orphan, pipelines, search; include before exclude\<close>
  "ordered_parts f =
     map (\<lambda>v. ''group:'' @ quote_value v) (groups f) @
     map (\<lambda>v. ''-group:'' @ quote_value v) (excludeGroups f) @
     map (\<lambda>v. ''scaler:'' @ v) (scalers f) @
     map (\<lambda>v. ''-scaler:'' @ v) (excludeScalers f) @
     tri_state_part (generator f) ''is:generator'' ''-is:generator'' @
     map (\<lambda>v. ''creator:'' @ quote_value v) (creators f) @
     map (\<lambda>v. ''-creator:'' @ quote_value v) (excludeCreators f) @
     tri_state_part (used f) ''is:used'' ''is:orphan'' @
     map (\<lambda>v. ''pipeline:'' @ quote_value v) (pipelines f) @
     map (\<lambda>v. ''-pipeline:'' @ quote_value v) (excludePipelines f) @
     (if search f = '''' then [] else [search f])"

datatype filter_field =
  Search | Used | Generator | ExcludePipelines | Pipelines | ExcludeCreators | Creators
  | ExcludeScalers | Scalers | ExcludeGroups | Groups

definition precedence :: "filter_field list" where
  \<comment> \<open>the order in which a backspace on the empty input looks for something to remove\<close>
  "precedence =
     [Search, Used, Generator, ExcludePipelines, Pipelines, ExcludeCreators, Creators,
      ExcludeScalers, Scalers, ExcludeGroups, Groups]"

fun is_active :: "FilterState \<Rightarrow> filter_field \<Rightarrow> bool" where
  "is_active f Search = (search f \<noteq> '''')"
| "is_active f Used = (used f \<noteq> None)"
| "is_active f Generator = (generator f \<noteq> None)"
| "is_active f ExcludePipelines = (excludePipelines f \<noteq> [])"
| "is_active f Pipelines = (pipelines f \<noteq> [])"
| "is_active f ExcludeCreators = (excludeCreators f \<noteq> [])"
| "is_active f Creators = (creators f \<noteq> [])"
| "is_active f ExcludeScalers = (excludeScalers f \<noteq> [])"
| "is_active f Scalers = (scalers f \<noteq> [])"
| "is_active f ExcludeGroups = (excludeGroups f \<noteq> [])"
| "is_active f Groups = (groups f \<noteq> [])"

fun remove_from :: "filter_field \<Rightarrow> FilterState \<Rightarrow> FilterState" where
  \<comment> \<open>one filter less in one field, the other fields as they are: the search text
      cleared, a tri-state unset, the last element of a sequence popped\<close>
  "remove_from Search f = f\<lparr>search := ''''\<rparr>"
| "remove_from Used f = f\<lparr>used := None\<rparr>"
| "remove_from Generator f = f\<lparr>generator := None\<rparr>"
| "remove_from ExcludePipelines f = f\<lparr>excludePipelines := butlast (excludePipelines f)\<rparr>"
| "remove_from Pipelines f = f\<lparr>pipelines := butlast (pipelines f)\<rparr>"
| "remove_from ExcludeCreators f = f\<lparr>excludeCreators := butlast (excludeCreators f)\<rparr>"
| "remove_from Creators f = f\<lparr>creators := butlast (creators f)\<rparr>"
| "remove_from ExcludeScalers f = f\<lparr>excludeScalers := butlast (excludeScalers f)\<rparr>"
| "remove_from Scalers f = f\<lparr>scalers := butlast (scalers f)\<rparr>"
| "remove_from ExcludeGroups f = f\<lparr>excludeGroups := butlast (excludeGroups f)\<rparr>"
| "remove_from Groups f = f\<lparr>groups := butlast (groups f)\<rparr>"

definition active_count :: "FilterState \<Rightarrow> nat" where
  \<comment> \<open>the number of active filters: one badge each\<close>
  "active_count f =
     (if search f = '''' then 0 else 1) + (if used f = None then 0 else 1) +
     (if generator f = None then 0 else 1) +
     length (excludePipelines f) + length (pipelines f) + length (excludeCreators f) +
     length (creators f) + length (excludeScalers f) + length (scalers f) +
     length (excludeGroups f) + length (groups f)"

definition generator_effect :: "ParsedToken \<Rightarrow> bool option" where
  \<comment> \<open>what a token dictates for the generator tri-state, if it affects it:
      \<open>is:generator\<close>, \<open>generator:yes|true|1\<close>, \<open>generator:no|false|0\<close>, negation inverting\<close>
  "generator_effect t =
     (if key t = ''is'' \<and> toLowerCase (value t) = ''generator'' then Some (\<not> negated t)
      else if key t = ''generator'' \<and> toLowerCase (value t) \<in> {''yes'', ''true'', ''1''}
        then Some (\<not> negated t)
      else if key t = ''generator'' \<and> toLowerCase (value t) \<in> {''no'', ''false'', ''0''}
        then Some (negated t)
      else None)"

definition used_effect :: "ParsedToken \<Rightarrow> bool option" where
  \<comment> \<open>what a token dictates for the used tri-state, if it affects it: \<open>is:used\<close>,
      \<open>is:orphan\<close>, negation inverting\<close>
  "used_effect t =
     (if key t = ''is'' \<and> toLowerCase (value t) = ''used'' then Some (\<not> negated t)
      else if key t = ''is'' \<and> toLowerCase (value t) = ''orphan'' then Some (negated t)
      else None)"

definition last_effect :: "(ParsedToken \<Rightarrow> bool option) \<Rightarrow> ParsedToken list \<Rightarrow> bool option" where
  \<comment> \<open>the value dictated by the last token that affects the tri-state; unset when no
      token does\<close>
  "last_effect effect tokens =
     (case filter (\<lambda>t. effect t \<noteq> None) tokens of [] \<Rightarrow> None | t # ts \<Rightarrow> effect (last (t # ts)))"

definition plain_value :: "string \<Rightarrow> bool" where
  \<comment> \<open>a value that reads back when written without quotes: not empty, no white space,
      no double quote in front\<close>
  "plain_value v \<longleftrightarrow> v \<noteq> [] \<and> (\<forall>c\<in>set v. \<not> is_space c) \<and> hd v \<noteq> CHR 0x22"

definition quotable_value :: "string \<Rightarrow> bool" where
  \<comment> \<open>a value that reads back through \<open>quote_value\<close>: with a space it is quoted and must
      hold no double quote, without a space it must be plain\<close>
  "quotable_value v \<longleftrightarrow> (if CHR '' '' \<in> set v then CHR 0x22 \<notin> set v else plain_value v)"

definition reparsable :: "FilterState \<Rightarrow> bool" where
  \<comment> \<open>the filter states whose query string reads back: values of groups, creators and
      pipelines quotable, scalers plain, and no token inside the search text\<close>
  "reparsable f \<longleftrightarrow>
     (\<forall>v\<in>set (groups f @ excludeGroups f @ creators f @ excludeCreators f @ pipelines f @
               excludePipelines f). quotable_value v) \<and>
     (\<forall>v\<in>set (scalers f @ excludeScalers f). plain_value v) \<and>
     exec (search f) = None"

definition token_part :: "string \<Rightarrow> ParsedToken \<Rightarrow> bool" where
  \<comment> \<open>the part is matched whole, and gives the token, before the end of the input or a
      white space\<close>
  "token_part p t \<longleftrightarrow>
     (\<forall>rest. rest = [] \<or> is_space (hd rest) \<longrightarrow>
        (\<exists>m. match_at (p @ rest) = Some (m, rest) \<and> make_token m = Inr t))"

definition spaced :: "string list \<Rightarrow> string" where
  \<comment> \<open>every part with a space in front\<close>
  "spaced ps = concat (map (\<lambda>p. CHR '' '' # p) ps)"

definition tri_state_tokens :: "bool option \<Rightarrow> ParsedToken \<Rightarrow> ParsedToken \<Rightarrow> ParsedToken list" where
  \<comment> \<open>as \<open>tri_state_part\<close>, for the tokens read back\<close>
  "tri_state_tokens t yes no = (case t of None \<Rightarrow> [] | Some True \<Rightarrow> [yes] | Some False \<Rightarrow> [no])"

definition written_tokens :: "FilterState \<Rightarrow> ParsedToken list" where
  \<comment> \<open>the tokens that the query string of a state reads back to, part by part\<close>
  "written_tokens f =
     map (\<lambda>v. \<lparr>key = ''group'', value = v, negated = False, raw = ''group:'' @ quote_value v\<rparr>)
       (groups f) @
     map (\<lambda>v. \<lparr>key = ''group'', value = v, negated = True, raw = ''-group:'' @ quote_value v\<rparr>)
       (excludeGroups f) @
     map (\<lambda>v. \<lparr>key = ''scaler'', value = v, negated = False, raw = ''scaler:'' @ v\<rparr>)
       (scalers f) @
     map (\<lambda>v. \<lparr>key = ''scaler'', value = v, negated = True, raw = ''-scaler:'' @ v\<rparr>)
       (excludeScalers f) @
     tri_state_tokens (generator f)
       \<lparr>key = ''is'', value = ''generator'', negated = False, raw = ''is:generator''\<rparr>
       \<lparr>key = ''is'', value = ''generator'', negated = True, raw = ''-is:generator''\<rparr> @
     map (\<lambda>v. \<lparr>key = ''creator'', value = v, negated = False, raw = ''creator:'' @ quote_value v\<rparr>)
       (creators f) @
     map (\<lambda>v. \<lparr>key = ''creator'', value = v, negated = True, raw = ''-creator:'' @ quote_value v\<rparr>)
       (excludeCreators f) @
     tri_state_tokens (used f)
       \<lparr>key = ''is'', value = ''used'', negated = False, raw = ''is:used''\<rparr>
       \<lparr>key = ''is'', value = ''orphan'', negated = False, raw = ''is:orphan''\<rparr> @
     map (\<lambda>v. \<lparr>key = ''pipeline'', value = v, negated = False, raw = ''pipeline:'' @ quote_value v\<rparr>)
       (pipelines f) @
     map (\<lambda>v. \<lparr>key = ''pipeline'', value = v, negated = True, raw = ''-pipeline:'' @ quote_value v\<rparr>)
       (excludePipelines f)"

definition token_parts :: "FilterState \<Rightarrow> string list" where
  \<comment> \<open>\<open>ordered_parts\<close> without the search text\<close>
  "token_parts f =
     map (\<lambda>v. ''group:'' @ quote_value v) (groups f) @
     map (\<lambda>v. ''-group:'' @ quote_value v) (excludeGroups f) @
     map (\<lambda>v. ''scaler:'' @ v) (scalers f) @
     map (\<lambda>v. ''-scaler:'' @ v) (excludeScalers f) @
     tri_state_part (generator f) ''is:generator'' ''-is:generator'' @
     map (\<lambda>v. ''creator:'' @ quote_value v) (creators f) @
     map (\<lambda>v. ''-creator:'' @ quote_value v) (excludeCreators f) @
     tri_state_part (used f) ''is:used'' ''is:orphan'' @
     map (\<lambda>v. ''pipeline:'' @ quote_value v) (pipelines f) @
     map (\<lambda>v. ''-pipeline:'' @ quote_value v) (excludePipelines f)"

definition same_filters :: "FilterState \<Rightarrow> FilterState \<Rightarrow> bool" where
  \<comment> \<open>the equality of the specification: equal fields, sequences compared up to order\<close>
  "same_filters f g \<longleftrightarrow>
     search f = search g \<and> generator f = generator g \<and> used f = used g \<and>
     mset (groups f) = mset (groups g) \<and> mset (excludeGroups f) = mset (excludeGroups g) \<and>
     mset (scalers f) = mset (scalers g) \<and> mset (excludeScalers f) = mset (excludeScalers g) \<and>
     mset (creators f) = mset (creators g) \<and> mset (excludeCreators f) = mset (excludeCreators g) \<and>
     mset (pipelines f) = mset (pipelines g) \<and>
     mset (excludePipelines f) = mset (excludePipelines g)"

inductive scan_reaches :: "string \<Rightarrow> ParsedToken list \<Rightarrow> string \<Rightarrow> string \<Rightarrow> bool" where
  \<comment> \<open>\<open>scan_reaches input collected kept rest\<close>: scanning \<open>input\<close> from its start, the
      pattern comes to stand at the suffix \<open>rest\<close>, having made the tokens \<open>collected\<close> and
      passed over the text \<open>kept\<close>. It moves on by one character where there is no match,
      and behind the match where there is one.\<close>
  start: "scan_reaches input [] [] input"
| skip: "scan_reaches input collected kept (c # cs) \<Longrightarrow> match_at (c # cs) = None \<Longrightarrow>
         scan_reaches input collected (kept @ [c]) cs"
| token: "scan_reaches input collected kept s \<Longrightarrow> match_at s = Some (m, rest) \<Longrightarrow>
          make_token m = Inr t \<Longrightarrow> scan_reaches input (collected @ [t]) kept rest"

code_pred scan_reaches .

section \<open>Basic facts\<close>

lemma foldl_push: "foldl (\<lambda>ps x. ps @ [f x]) acc xs = acc @ map f xs"
  by (induction xs arbitrary: acc) simp_all


lemma includes_str_char: "includes_str s [c] \<longleftrightarrow> c \<in> set s"
  by (auto simp: includes_str_def sublist_def in_set_conv_decomp)

lemma match_at_Nil: "match_at [] = None"
  by (simp add: match_at_def match_key_value_def)

section \<open>Facts about the tokenizer\<close>

subsection \<open>Character classes\<close>

lemma word_char_not_special:
  "is_word_char c \<Longrightarrow> c \<noteq> CHR ''-'' \<and> c \<noteq> CHR '':'' \<and> c \<noteq> CHR '' '' \<and> c \<noteq> CHR 0x22"
  by (auto simp: is_word_char_def)

lemma space_is_space: "is_space CHR '' ''"
  by (simp add: is_space_def)

lemma quote_not_space: "\<not> is_space (CHR 0x22)"
  by (simp add: is_space_def)

lemma space_not_word: "is_space c \<Longrightarrow> \<not> is_word_char c"
  by (auto simp: is_space_def is_word_char_def Let_def)

subsection \<open>What a match looks like\<close>

lemma match_value_text:
  assumes "match_value s = Some (v, rest)"
  shows "s = v @ rest \<and> v \<noteq> []"
proof (cases "match_quoted s")
  case None
  with assms have "v = takeWhile (\<lambda>x. \<not> is_space x) s" and "v \<noteq> []"
    and "rest = dropWhile (\<lambda>x. \<not> is_space x) s"
    by (auto simp: match_value_def match_nonspace_def Let_def split: if_splits)
  then show ?thesis by simp
next
  case (Some a)
  with assms obtain c cs d where s: "s = c # cs"
    and d: "dropWhile (\<lambda>x. x \<noteq> CHR 0x22) cs = d # rest"
    and v: "v = c # takeWhile (\<lambda>x. x \<noteq> CHR 0x22) cs @ [d]"
    by (auto simp: match_value_def match_quoted_def split: list.splits if_splits)
  have "cs = takeWhile (\<lambda>x. x \<noteq> CHR 0x22) cs @ d # rest"
    by (metis d takeWhile_dropWhile_id)
  with s v show ?thesis by simp
qed

lemma match_key_value_captures:
  assumes "match_key_value neg s = Some (m, rest)"
  shows "\<exists>k v. m1 m = Some neg \<and> m2 m = Some k \<and> m3 m = Some v \<and> m0 m = neg @ k @ '':'' @ v \<and>
           s = k @ '':'' @ v @ rest \<and> k \<noteq> [] \<and> v \<noteq> []"
proof -
  from assms obtain r v where k: "takeWhile is_word_char s \<noteq> []"
    and d: "dropWhile is_word_char s = CHR '':'' # r"
    and v: "match_value r = Some (v, rest)"
    and m: "m = \<lparr>m0 = neg @ takeWhile is_word_char s @ '':'' @ v, m1 = Some neg,
                   m2 = Some (takeWhile is_word_char s), m3 = Some v\<rparr>"
    by (auto simp: match_key_value_def Let_def split: if_splits list.splits option.splits)
  have s: "s = takeWhile is_word_char s @ CHR '':'' # r"
    by (metis d takeWhile_dropWhile_id)
  have r: "r = v @ rest \<and> v \<noteq> []"
    using v by (rule match_value_text)
  from s r have "s = takeWhile is_word_char s @ '':'' @ v @ rest"
    by simp
  with k m r show ?thesis
    by auto
qed

lemma exec_match_at:
  "match_at s = Some (m, rest) \<Longrightarrow> exec s = Some ([], m, rest)"
  by (cases s) simp_all

lemma exec_skip:
  "match_at (c # cs) = None \<Longrightarrow>
   exec (c # cs) = map_option (\<lambda>(skipped, m, rest). (c # skipped, m, rest)) (exec cs)"
  by (auto split: option.splits)

lemma match_at_captures:
  assumes "match_at s = Some (m, rest)"
  shows "\<exists>n k v. m1 m = Some n \<and> m2 m = Some k \<and> m3 m = Some v"
  using assms
  by (auto simp: match_at_def split: list.splits if_splits option.splits
      dest!: match_key_value_captures)

lemma exec_captures:
  "exec s = Some (skipped, m, rest) \<Longrightarrow> \<exists>n k v. m1 m = Some n \<and> m2 m = Some k \<and> m3 m = Some v"
proof (induction s arbitrary: skipped)
  case Nil
  then show ?case
    by (simp add: match_at_Nil)
next
  case (Cons c cs)
  show ?case
  proof (cases "match_at (c # cs)")
    case None
    with Cons.prems obtain sk where "exec cs = Some (sk, m, rest)"
      by (auto split: option.splits)
    then show ?thesis by (rule Cons.IH)
  next
    case (Some a)
    with Cons.prems have "match_at (c # cs) = Some (m, rest)"
      by (auto split: option.splits)
    then show ?thesis by (rule match_at_captures)
  qed
qed

lemma make_token_exec:
  "exec s = Some (skipped, m, rest) \<Longrightarrow> \<exists>t. make_token m = Inr t"
  by (drule exec_captures) (auto simp: make_token_def)

subsection \<open>The loop of parseInput\<close>

lemma parseInput_loop_acc:
  "parseInput_loop s acc =
   (case parseInput_loop s [] of Inl e \<Rightarrow> Inl e | Inr ts \<Rightarrow> Inr (acc @ ts))"
proof (induction "length s" arbitrary: s acc rule: less_induct)
  case less
  show ?case
  proof (cases "exec s")
    case None
    then show ?thesis
      by (simp add: parseInput_loop.simps [of s])
  next
    case (Some a)
    then obtain skipped m rest where ex: "exec s = Some (skipped, m, rest)"
      by (cases a) auto
    from make_token_exec [OF ex] obtain t where t: "make_token m = Inr t" ..
    have shorter: "length rest < length s"
      using ex by (rule exec_shorter)
    have "parseInput_loop s acc = parseInput_loop rest (acc @ [t])"
      using ex t by (simp add: parseInput_loop.simps [of s])
    also have "\<dots> = (case parseInput_loop rest [] of Inl e \<Rightarrow> Inl e
                      | Inr ts \<Rightarrow> Inr ((acc @ [t]) @ ts))"
      by (rule less [OF shorter])
    finally have a: "parseInput_loop s acc =
        (case parseInput_loop rest [] of Inl e \<Rightarrow> Inl e | Inr ts \<Rightarrow> Inr (acc @ t # ts))"
      by (simp split: sum.split)
    have "parseInput_loop s [] = parseInput_loop rest [t]"
      using ex t by (simp add: parseInput_loop.simps [of s])
    also have "\<dots> = (case parseInput_loop rest [] of Inl e \<Rightarrow> Inl e | Inr ts \<Rightarrow> Inr ([t] @ ts))"
      by (rule less [OF shorter])
    finally have b: "parseInput_loop s [] =
        (case parseInput_loop rest [] of Inl e \<Rightarrow> Inl e | Inr ts \<Rightarrow> Inr (t # ts))"
      by (simp split: sum.split)
    show ?thesis
      unfolding a b by (simp split: sum.split)
  qed
qed

lemma parseInput_no_match: "exec s = None \<Longrightarrow> parseInput s = Inr []"
  by (simp add: parseInput_def parseInput_loop.simps [of s])

lemma parseInput_match:
  assumes "exec s = Some (skipped, m, rest)" and "make_token m = Inr t"
  shows "parseInput s = (case parseInput rest of Inl e \<Rightarrow> Inl e | Inr ts \<Rightarrow> Inr (t # ts))"
proof -
  have "parseInput s = parseInput_loop rest [t]"
    using assms by (simp add: parseInput_def parseInput_loop.simps [of s])
  also have "\<dots> = (case parseInput_loop rest [] of Inl e \<Rightarrow> Inl e | Inr ts \<Rightarrow> Inr ([t] @ ts))"
    by (rule parseInput_loop_acc)
  finally show ?thesis
    by (simp add: parseInput_def split: sum.split)
qed

lemma parseInput_total: "\<exists>ts. parseInput s = Inr ts"
proof (induction "length s" arbitrary: s rule: less_induct)
  case less
  show ?case
  proof (cases "exec s")
    case None
    then show ?thesis by (simp add: parseInput_no_match)
  next
    case (Some a)
    then obtain skipped m rest where ex: "exec s = Some (skipped, m, rest)"
      by (cases a) auto
    from make_token_exec [OF ex] obtain t where t: "make_token m = Inr t" ..
    from less [OF exec_shorter [OF ex]] obtain ts where "parseInput rest = Inr ts" ..
    with parseInput_match [OF ex t] show ?thesis by simp
  qed
qed

subsection \<open>Skipping and consuming\<close>

lemma parseInput_token:
  assumes "match_at s = Some (m, rest)" and "make_token m = Inr t" and "parseInput rest = Inr ts"
  shows "parseInput s = Inr (t # ts)"
  using parseInput_match [OF exec_match_at [OF assms(1)] assms(2)] assms(3) by simp

lemma parseInput_skip:
  assumes "match_at (c # cs) = None"
  shows "parseInput (c # cs) = parseInput cs"
proof (cases "exec cs")
  case None
  with assms have "exec (c # cs) = None"
    by (simp add: exec_skip)
  with None show ?thesis
    by (simp add: parseInput_no_match)
next
  case (Some a)
  then obtain skipped m rest where ex: "exec cs = Some (skipped, m, rest)"
    by (cases a) auto
  with assms have ex': "exec (c # cs) = Some (c # skipped, m, rest)"
    by (simp add: exec_skip)
  from make_token_exec [OF ex] obtain t where t: "make_token m = Inr t" ..
  show ?thesis
    by (simp add: parseInput_match [OF ex t] parseInput_match [OF ex' t])
qed

lemma remove_tokens_none: "exec s = None \<Longrightarrow> remove_tokens s = s"
  by (simp add: remove_tokens.simps [of s])

lemma remove_tokens_token:
  "match_at s = Some (m, rest) \<Longrightarrow> remove_tokens s = remove_tokens rest"
  by (simp add: remove_tokens.simps [of s] exec_match_at)

lemma remove_tokens_skip:
  assumes "match_at (c # cs) = None"
  shows "remove_tokens (c # cs) = c # remove_tokens cs"
proof (cases "exec cs")
  case None
  with assms have "exec (c # cs) = None"
    by (simp add: exec_skip)
  with None show ?thesis
    by (simp add: remove_tokens_none)
next
  case (Some a)
  then obtain skipped m rest where ex: "exec cs = Some (skipped, m, rest)"
    by (cases a) auto
  with assms have ex': "exec (c # cs) = Some (c # skipped, m, rest)"
    by (simp add: exec_skip)
  show ?thesis
    by (simp add: remove_tokens.simps [of "c # cs"] remove_tokens.simps [of cs] ex ex'
          del: exec.simps)
qed

lemma match_at_space: "is_space c \<Longrightarrow> match_at (c # cs) = None"
  by (auto simp: match_at_def match_key_value_def space_not_word is_space_def)

subsection \<open>Matching a token that was built\<close>

lemma takeWhile_run:
  "\<forall>x\<in>set k. P x \<Longrightarrow> \<not> P c \<Longrightarrow> takeWhile P (k @ c # r) = k"
  by (induction k) simp_all

lemma dropWhile_run:
  "\<forall>x\<in>set k. P x \<Longrightarrow> \<not> P c \<Longrightarrow> dropWhile P (k @ c # r) = c # r"
  by (induction k) simp_all

lemma match_key_value_built:
  assumes "k \<noteq> []" and "\<forall>c\<in>set k. is_word_char c" and "match_value s = Some (vt, rest)"
  shows "match_key_value neg (k @ '':'' @ s) =
         Some (\<lparr>m0 = neg @ k @ '':'' @ vt, m1 = Some neg, m2 = Some k, m3 = Some vt\<rparr>, rest)"
proof -
  have c: "\<not> is_word_char CHR '':''"
    by (simp add: is_word_char_def)
  have "takeWhile is_word_char (k @ CHR '':'' # s) = k"
    and "dropWhile is_word_char (k @ CHR '':'' # s) = CHR '':'' # s"
    using assms(2) c by (simp_all add: takeWhile_run dropWhile_run)
  with assms(1,3) show ?thesis
    by (simp add: match_key_value_def)
qed

lemma match_at_built:
  assumes "neg = '''' \<or> neg = ''-''"
    and "k \<noteq> []" and "\<forall>c\<in>set k. is_word_char c" and "match_value s = Some (vt, rest)"
  shows "match_at (neg @ k @ '':'' @ s) =
         Some (\<lparr>m0 = neg @ k @ '':'' @ vt, m1 = Some neg, m2 = Some k, m3 = Some vt\<rparr>, rest)"
proof (cases "neg = ''''")
  case True
  from assms(2) obtain c k' where k: "k = c # k'"
    by (cases k) auto
  with assms(3) have "c \<noteq> CHR ''-''"
    using word_char_not_special [of c] by simp
  with True k match_key_value_built [OF assms(2-4), of "''''"] show ?thesis
    by (simp add: match_at_def)
next
  case False
  with assms(1) have "neg = ''-''" by simp
  with match_key_value_built [OF assms(2-4), of "''-''"] show ?thesis
    by (simp add: match_at_def)
qed

lemma match_value_quoted:
  assumes "CHR 0x22 \<notin> set body"
  shows "match_value (CHR 0x22 # body @ CHR 0x22 # rest) = Some (CHR 0x22 # body @ [CHR 0x22], rest)"
proof -
  from assms have "\<forall>x\<in>set body. x \<noteq> CHR 0x22"
    by auto
  then have "takeWhile (\<lambda>x. x \<noteq> CHR 0x22) (body @ CHR 0x22 # rest) = body"
    and "dropWhile (\<lambda>x. x \<noteq> CHR 0x22) (body @ CHR 0x22 # rest) = CHR 0x22 # rest"
    by (simp_all add: takeWhile_run dropWhile_run)
  then show ?thesis
    by (simp add: match_value_def match_quoted_def)
qed

lemma nonspace_run:
  assumes "\<forall>c\<in>set vt. \<not> is_space c" and "rest = [] \<or> is_space (hd rest)"
  shows "takeWhile (\<lambda>x. \<not> is_space x) (vt @ rest) = vt"
    and "dropWhile (\<lambda>x. \<not> is_space x) (vt @ rest) = rest"
proof -
  show "takeWhile (\<lambda>x. \<not> is_space x) (vt @ rest) = vt"
  proof (cases rest)
    case Nil
    with assms(1) show ?thesis by simp
  next
    case (Cons c r)
    with assms show ?thesis
      by (simp add: takeWhile_run)
  qed
  show "dropWhile (\<lambda>x. \<not> is_space x) (vt @ rest) = rest"
  proof (cases rest)
    case Nil
    with assms(1) show ?thesis by simp
  next
    case (Cons c r)
    with assms show ?thesis
      by (simp add: dropWhile_run)
  qed
qed

lemma match_value_plain:
  assumes "vt \<noteq> []" and "\<forall>c\<in>set vt. \<not> is_space c" and "hd vt \<noteq> CHR 0x22"
    and "rest = [] \<or> is_space (hd rest)"
  shows "match_value (vt @ rest) = Some (vt, rest)"
proof -
  from assms(1,3) have "match_quoted (vt @ rest) = None"
    by (cases vt) (simp_all add: match_quoted_def)
  with assms(1) nonspace_run [OF assms(2,4)] show ?thesis
    by (simp add: match_value_def match_nonspace_def)
qed

lemma match_value_unterminated:
  assumes "CHR 0x22 \<notin> set v"
  shows "match_value (CHR 0x22 # v) =
         Some (CHR 0x22 # takeWhile (\<lambda>x. \<not> is_space x) v, dropWhile (\<lambda>x. \<not> is_space x) v)"
proof -
  from assms have d: "dropWhile (\<lambda>x. x \<noteq> CHR 0x22) v = []"
    by auto
  have "match_quoted (CHR 0x22 # v) = None"
    by (simp add: match_quoted_def d)
  then show ?thesis
    by (simp add: match_value_def match_nonspace_def quote_not_space)
qed

subsection \<open>The token made from a match\<close>

lemma slice_inner: "slice (c # body @ [d]) 1 (- 1) = body"
  by (simp add: slice_def rel_index_def)

lemma make_token_quoted:
  "make_token \<lparr>m0 = r, m1 = Some neg, m2 = Some k, m3 = Some (CHR 0x22 # body @ [CHR 0x22])\<rparr> =
   Inr \<lparr>key = toLowerCase k, value = body, negated = (neg = ''-''), raw = r\<rparr>"
  by (simp add: make_token_def startsWith_def endsWith_def slice_inner suffix_def)

lemma make_token_plain:
  assumes "vt \<noteq> []" and "hd vt \<noteq> CHR 0x22"
  shows "make_token \<lparr>m0 = r, m1 = Some neg, m2 = Some k, m3 = Some vt\<rparr> =
         Inr \<lparr>key = toLowerCase k, value = vt, negated = (neg = ''-''), raw = r\<rparr>"
  using assms by (cases vt) (simp_all add: make_token_def startsWith_def)

lemma make_token_open_quote:
  assumes "CHR 0x22 \<notin> set w"
  shows "make_token \<lparr>m0 = r, m1 = Some neg, m2 = Some k, m3 = Some (CHR 0x22 # w)\<rparr> =
         Inr \<lparr>key = toLowerCase k, value = (if w = [] then [] else CHR 0x22 # w),
              negated = (neg = ''-''), raw = r\<rparr>"
proof (cases "w = []")
  case True
  then show ?thesis
    by (simp add: make_token_def startsWith_def endsWith_def slice_def rel_index_def)
next
  case False
  then have "last w \<in> set w" by simp
  with assms have "last w \<noteq> CHR 0x22" by metis
  with False have "\<not> suffix [CHR 0x22] (CHR 0x22 # w)"
    by (auto simp: suffix_def) (metis last_snoc last_ConsR)
  with False show ?thesis
    by (simp add: make_token_def endsWith_def)
qed

subsection \<open>Free text is in normal form\<close>

lemma collapse_spaces_Nil_iff: "collapse_spaces s = [] \<longleftrightarrow> s = []"
  by (cases s) simp_all

lemma collapse_spaces_hd:
  "s = [] \<or> \<not> is_space (hd s) \<Longrightarrow> collapse_spaces s = [] \<or> \<not> is_space (hd (collapse_spaces s))"
  by (cases s) auto

lemma dropWhile_starts: "dropWhile P s = [] \<or> \<not> P (hd (dropWhile P s))"
  by (metis hd_dropWhile)

lemma dropWhile_id: "s = [] \<or> \<not> P (hd s) \<Longrightarrow> dropWhile P s = s"
  by (cases s) auto

lemma collapse_spaces_idem: "collapse_spaces (collapse_spaces s) = collapse_spaces s"
proof (induction s rule: collapse_spaces.induct)
  case 1
  show ?case by simp
next
  case (2 c cs)
  show ?case
  proof (cases "is_space c")
    case True
    let ?d = "dropWhile is_space cs"
    have "collapse_spaces ?d = [] \<or> \<not> is_space (hd (collapse_spaces ?d))"
      by (rule collapse_spaces_hd) (rule dropWhile_starts)
    then have "dropWhile is_space (collapse_spaces ?d) = collapse_spaces ?d"
      by (rule dropWhile_id)
    with True 2(1) show ?thesis
      by (simp add: space_is_space)
  next
    case False
    with 2(2) show ?thesis by simp
  qed
qed

lemma collapse_spaces_last:
  "s = [] \<or> \<not> is_space (last s) \<Longrightarrow>
   collapse_spaces s = [] \<or> \<not> is_space (last (collapse_spaces s))"
proof (induction s rule: collapse_spaces.induct)
  case 1
  show ?case by simp
next
  case (2 c cs)
  show ?case
  proof (cases "is_space c")
    case True
    let ?d = "dropWhile is_space cs"
    from True 2(3) have cs: "cs \<noteq> []" and l: "\<not> is_space (last cs)"
      by (auto split: if_splits)
    have "cs = takeWhile is_space cs @ ?d"
      by simp
    moreover have d: "?d \<noteq> []"
      using cs l by (metis dropWhile_eq_Nil_conv last_in_set)
    ultimately have "last cs = last ?d"
      by (metis last_appendR)
    with l have "?d = [] \<or> \<not> is_space (last ?d)"
      by simp
    then have "collapse_spaces ?d = [] \<or> \<not> is_space (last (collapse_spaces ?d))"
      by (rule 2(1) [OF True])
    moreover from d have ne: "collapse_spaces ?d \<noteq> []"
      by (simp only: collapse_spaces_Nil_iff not_False_eq_True)
    ultimately have "\<not> is_space (last (collapse_spaces ?d))"
      by blast
    moreover have "collapse_spaces (c # cs) = CHR '' '' # collapse_spaces ?d"
      using True by simp
    ultimately show ?thesis
      using ne by (simp only: last_ConsR) simp
  next
    case False
    show ?thesis
    proof (cases "cs = []")
      case True
      with False show ?thesis by simp
    next
      case nonempty: False
      with 2(3) have "\<not> is_space (last cs)"
        by simp
      with 2(2) [OF False] nonempty False show ?thesis
        by (simp add: collapse_spaces_Nil_iff)
    qed
  qed
qed

lemma trimEnd_id: "s = [] \<or> \<not> is_space (last s) \<Longrightarrow> trimEnd s = s"
proof -
  assume "s = [] \<or> \<not> is_space (last s)"
  then have "rev s = [] \<or> \<not> is_space (hd (rev s))"
    by (auto simp: hd_rev)
  then have "dropWhile is_space (rev s) = rev s"
    by (rule dropWhile_id)
  then show ?thesis
    by (simp add: trimEnd_def)
qed

lemma trimEnd_last: "trimEnd s = [] \<or> \<not> is_space (last (trimEnd s))"
proof -
  have "dropWhile is_space (rev s) = [] \<or> \<not> is_space (hd (dropWhile is_space (rev s)))"
    by (rule dropWhile_starts)
  then show ?thesis
    by (auto simp: trimEnd_def last_rev)
qed

lemma trimEnd_hd:
  assumes "s = [] \<or> \<not> is_space (hd s)"
  shows "trimEnd s = [] \<or> \<not> is_space (hd (trimEnd s))"
proof (cases "trimEnd s = []")
  case True
  then show ?thesis by simp
next
  case False
  have "rev s = takeWhile is_space (rev s) @ dropWhile is_space (rev s)"
    by simp
  then have "s = trimEnd s @ rev (takeWhile is_space (rev s))"
    by (metis rev_append rev_rev_ident trimEnd_def)
  with False have "hd s = hd (trimEnd s)"
    by (metis hd_append2)
  moreover from False have "s \<noteq> []"
    by (auto simp: trimEnd_def)
  ultimately show ?thesis
    using assms by auto
qed

lemma trim_ends:
  "(trim s = [] \<or> \<not> is_space (hd (trim s))) \<and> (trim s = [] \<or> \<not> is_space (last (trim s)))"
  unfolding trim_def trimStart_def
  using trimEnd_hd [OF dropWhile_starts [of is_space s]] trimEnd_last [of "dropWhile is_space s"]
  by simp

lemma trim_id:
  assumes "s = [] \<or> \<not> is_space (hd s)" and "s = [] \<or> \<not> is_space (last s)"
  shows "trim s = s"
  using assms by (simp add: trim_def trimStart_def dropWhile_id trimEnd_id)

lemma free_text_normal:
  "collapse_spaces (trim (collapse_spaces (trim s))) = collapse_spaces (trim s)"
proof -
  let ?t = "trim s"
  from trim_ends [of s] have h: "?t = [] \<or> \<not> is_space (hd ?t)" and l: "?t = [] \<or> \<not> is_space (last ?t)"
    by simp_all
  have "trim (collapse_spaces ?t) = collapse_spaces ?t"
    by (rule trim_id [OF collapse_spaces_hd [OF h] collapse_spaces_last [OF l]])
  then show ?thesis
    by (simp add: collapse_spaces_idem)
qed

lemma extractFreeText_normal:
  "collapse_spaces (trim (extractFreeText s)) = extractFreeText s"
  by (simp add: extractFreeText_def free_text_normal)

lemma trim_leading_spaces: "trim (replicate n CHR '' '' @ s) = trim s"
  by (induction n) (simp_all add: trim_def trimStart_def space_is_space)

section \<open>The serializer\<close>

lemma filtersToQueryString_parts: "filtersToQueryString f = join '' '' (ordered_parts f)"
  by (simp add: filtersToQueryString_def ordered_parts_def tri_state_part_def foldl_push Let_def
        split: option.split bool.split)

text \<open>
  C6. Whatever the filter state, \<open>filtersToQueryString\<close> emits its tokens in the fixed order
  groups (include, then exclude), scalers (include, then exclude), generator, creators
  (include, then exclude), used/orphan, pipelines (include, then exclude), free-text
  search, and joins them with single spaces.
\<close>

theorem filtersToQueryString_order:
  "filtersToQueryString f = join '' '' (ordered_parts f)"
  by (rule filtersToQueryString_parts)

text \<open>
  C2. A value with a space is wrapped in double quotes in every include and exclude
  sequence. The code does so for groups, creators and pipelines, and emits a scaler as it
  is: here the scaler \<open>a b\<close> leaves unquoted, next to the group \<open>a b\<close>, which is quoted.
\<close>

theorem scaler_not_quoted:
  "filtersToQueryString (DEFAULT_FILTER_STATE\<lparr>scalers := [''a b'']\<rparr>) = ''scaler:a b'' \<and>
   filtersToQueryString (DEFAULT_FILTER_STATE\<lparr>excludeScalers := [''a b'']\<rparr>) = ''-scaler:a b'' \<and>
   filtersToQueryString (DEFAULT_FILTER_STATE\<lparr>groups := [''a b'']\<rparr>) = ''group:\"a b\"''"
  by (simp add: filtersToQueryString_def DEFAULT_FILTER_STATE_def join_def quote_value_def
        includes_str_char)

text \<open>
  C10. The empty state round-trips at the persistence boundary: the default filter state
  serializes to the empty string, and the empty query string parses, whatever the current
  user, to the default filter state.
\<close>

theorem empty_state_round_trip:
  "filtersToQueryString DEFAULT_FILTER_STATE = '''' \<and>
   parseQueryString '''' currentUser = Inr DEFAULT_FILTER_STATE"
  by (simp add: filtersToQueryString_def DEFAULT_FILTER_STATE_def join_def parseQueryString_def
        parseInput_def parseInput_loop.simps [of "[]"] remove_tokens.simps [of "[]"]
        match_at_Nil extractFreeText_def trim_def trimStart_def trimEnd_def
        tokensToFilters_def)

section \<open>Backspace on the empty input\<close>

lemma slice_butlast: "slice xs 0 (- 1) = butlast xs"
proof -
  have "nat (max (int (length xs) - 1) 0) = length xs - 1"
    by (cases xs) simp_all
  then show ?thesis
    by (simp add: slice_def rel_index_def butlast_conv_take)
qed

lemma removeLastFilter_precedence:
  assumes "hasActiveFilters f"
  shows "\<exists>fld. List.find (is_active f) precedence = Some fld \<and>
           removeLastFilter f = remove_from fld f"
  using assms
  by (auto simp: hasActiveFilters_def precedence_def removeLastFilter_def slice_butlast)

lemma remove_from_count:
  "is_active f fld \<Longrightarrow> active_count (remove_from fld f) + 1 = active_count f"
  by (cases fld) (auto simp: active_count_def)

text \<open>
  C5. A backspace on the empty input, with at least one filter active, removes exactly one
  filter: from the first active field in the order search, used, generator, pipelines
  (exclude, include), creators, scalers, groups. The search text is cleared, a tri-state
  is unset, a sequence loses its last element; no other field changes.
\<close>

theorem backspace_removes_by_precedence:
  assumes "hasActiveFilters f"
  shows "\<exists>fld. List.find (is_active f) precedence = Some fld \<and>
           handleBackspace '''' f = Some (remove_from fld f) \<and>
           active_count (remove_from fld f) + 1 = active_count f"
proof -
  from removeLastFilter_precedence [OF assms] obtain fld
    where fld: "List.find (is_active f) precedence = Some fld"
      and rm: "removeLastFilter f = remove_from fld f"
    by blast
  from fld have "is_active f fld"
    by (auto simp: find_Some_iff)
  then have "active_count (remove_from fld f) + 1 = active_count f"
    by (rule remove_from_count)
  with fld rm assms show ?thesis
    by (simp add: handleBackspace_def)
qed

theorem backspace_search_then_pipeline:
  "hasActiveFilters (DEFAULT_FILTER_STATE\<lparr>search := ''x'', pipelines := [''p1'']\<rparr>) \<and>
   handleBackspace '''' (DEFAULT_FILTER_STATE\<lparr>search := ''x'', pipelines := [''p1'']\<rparr>) =
     Some (DEFAULT_FILTER_STATE\<lparr>pipelines := [''p1'']\<rparr>) \<and>
   hasActiveFilters (DEFAULT_FILTER_STATE\<lparr>pipelines := [''p1'']\<rparr>) \<and>
   handleBackspace '''' (DEFAULT_FILTER_STATE\<lparr>pipelines := [''p1'']\<rparr>) =
     Some DEFAULT_FILTER_STATE"
proof -
  let ?f1 = "DEFAULT_FILTER_STATE\<lparr>search := ''x'', pipelines := [''p1'']\<rparr>"
  let ?f2 = "DEFAULT_FILTER_STATE\<lparr>pipelines := [''p1'']\<rparr>"
  have a1: "hasActiveFilters ?f1" and a2: "hasActiveFilters ?f2"
    by (simp_all add: hasActiveFilters_def)
  from backspace_removes_by_precedence [OF a1] obtain fld1
    where "List.find (is_active ?f1) precedence = Some fld1"
      and r1: "handleBackspace '''' ?f1 = Some (remove_from fld1 ?f1)"
    by blast
  then have "fld1 = Search"
    by (simp add: precedence_def)
  with r1 have b1: "handleBackspace '''' ?f1 = Some ?f2"
    by (simp add: DEFAULT_FILTER_STATE_def)
  from backspace_removes_by_precedence [OF a2] obtain fld2
    where "List.find (is_active ?f2) precedence = Some fld2"
      and r2: "handleBackspace '''' ?f2 = Some (remove_from fld2 ?f2)"
    by blast
  then have "fld2 = Pipelines"
    by (simp add: precedence_def DEFAULT_FILTER_STATE_def)
  with r2 have b2: "handleBackspace '''' ?f2 = Some DEFAULT_FILTER_STATE"
    by (simp add: DEFAULT_FILTER_STATE_def)
  from a1 a2 b1 b2 show ?thesis by simp
qed

section \<open>From tokens to filters\<close>

lemma tokensToFilters_snoc:
  "tokensToFilters (ts @ [t]) freeText currentUser =
   tokensToFilters_step currentUser (tokensToFilters ts freeText currentUser) t"
  by (simp add: tokensToFilters_def)

lemma step_generator:
  "generator (tokensToFilters_step cu f t) =
   (case generator_effect t of None \<Rightarrow> generator f | Some b \<Rightarrow> Some b)"
  by (simp add: tokensToFilters_step_def generator_effect_def Let_def)

lemma step_used:
  "used (tokensToFilters_step cu f t) = (case used_effect t of None \<Rightarrow> used f | Some b \<Rightarrow> Some b)"
  by (simp add: tokensToFilters_step_def used_effect_def Let_def)

lemma last_effect_Nil: "last_effect e [] = None"
  by (simp add: last_effect_def)

lemma last_effect_alt:
  "last_effect e ts =
   (if filter (\<lambda>t. e t \<noteq> None) ts = [] then None else e (last (filter (\<lambda>t. e t \<noteq> None) ts)))"
  by (cases "filter (\<lambda>t. e t \<noteq> None) ts") (simp_all add: last_effect_def)

lemma last_effect_snoc:
  "last_effect e (ts @ [t]) = (case e t of None \<Rightarrow> last_effect e ts | Some b \<Rightarrow> Some b)"
  by (cases "e t") (simp_all add: last_effect_alt)

text \<open>
  C7. For every token list, the generator and the used tri-states that \<open>tokensToFilters\<close>
  returns are the values dictated by the last token that affects each of them; tokens
  before it are overwritten, and with no such token the tri-state stays unset.
\<close>

theorem last_token_wins:
  "generator (tokensToFilters tokens freeText currentUser) = last_effect generator_effect tokens \<and>
   used (tokensToFilters tokens freeText currentUser) = last_effect used_effect tokens"
proof (induction tokens rule: rev_induct)
  case Nil
  show ?case
    by (simp add: tokensToFilters_def DEFAULT_FILTER_STATE_def last_effect_Nil)
next
  case (snoc t ts)
  then show ?case
    by (simp add: tokensToFilters_snoc step_generator step_used last_effect_snoc
          split: option.split)
qed

text \<open>
  C8. A token with key \<open>creator\<close> and value \<open>@me\<close> appends the current user to the
  creators, or to the excluded creators when it is negated; when no current user is given
  (the empty string), it appends the literal \<open>@me\<close>.
\<close>

theorem creator_me_expansion:
  assumes "key t = ''creator''" and "value t = ''@me''"
  shows "tokensToFilters (ts @ [t]) freeText currentUser =
         (let f = tokensToFilters ts freeText currentUser;
              who = (if currentUser \<noteq> '''' then currentUser else ''@me'')
          in if negated t then f\<lparr>excludeCreators := excludeCreators f @ [who]\<rparr>
             else f\<lparr>creators := creators f @ [who]\<rparr>)"
  using assms by (simp add: tokensToFilters_snoc tokensToFilters_step_def Let_def)

lemma parseInput_creator_me:
  "parseInput ''creator:@me'' =
   Inr [\<lparr>key = ''creator'', value = ''@me'', negated = False, raw = ''creator:@me''\<rparr>]"
  by code_simp

theorem creator_me_example:
  "\<exists>t. parseInput ''creator:@me'' = Inr [t] \<and> key t = ''creator'' \<and> value t = ''@me'' \<and>
     creators (tokensToFilters [t] '''' ''alice'') = [''alice''] \<and>
     creators (tokensToFilters [t] '''' '''') = [''@me'']"
proof -
  let ?t = "\<lparr>key = ''creator'', value = ''@me'', negated = False, raw = ''creator:@me''\<rparr>"
  have k: "key ?t = ''creator''" and v: "value ?t = ''@me''"
    by simp_all
  have "creators (tokensToFilters ([] @ [?t]) '''' ''alice'') = [''alice'']"
    unfolding creator_me_expansion [OF k v]
    by (simp add: tokensToFilters_def DEFAULT_FILTER_STATE_def)
  moreover have "creators (tokensToFilters ([] @ [?t]) '''' '''') = [''@me'']"
    unfolding creator_me_expansion [OF k v]
    by (simp add: tokensToFilters_def DEFAULT_FILTER_STATE_def)
  ultimately show ?thesis
    using parseInput_creator_me by simp
qed

section \<open>Key suggestions\<close>






section \<open>Unterminated quotes\<close>

lemma scan_reaches_parse:
  assumes "scan_reaches input collected kept s"
  shows "\<exists>ts. parseInput s = Inr ts \<and> parseInput input = Inr (collected @ ts)"
    and "remove_tokens input = kept @ remove_tokens s"
  using assms
proof (induction rule: scan_reaches.induct)
  case (start input)
  {
    case 1
    show ?case
      using parseInput_total [of input] by auto
  next
    case 2
    show ?case by simp
  }
next
  case (skip input collected kept c cs)
  {
    case 1
    from skip.IH(1) skip.hyps(2) show ?case
      by (simp add: parseInput_skip)
  next
    case 2
    from skip.IH(2) skip.hyps(2) show ?case
      by (simp add: remove_tokens_skip)
  }
next
  case (token input collected kept s m rest t)
  {
    case 1
    obtain ts where ts: "parseInput rest = Inr ts"
      using parseInput_total by blast
    from parseInput_token [OF token.hyps(2,3) ts] token.IH(1) ts show ?case
      by simp
  next
    case 2
    from token.IH(2) remove_tokens_token [OF token.hyps(2)] show ?case
      by simp
  }
qed

lemma unterminated_quote_match:
  assumes "neg = '''' \<or> neg = ''-''" and "k \<noteq> []" and "\<forall>c\<in>set k. is_word_char c"
    and "CHR 0x22 \<notin> set v"
  shows "match_at (neg @ k @ '':'' @ CHR 0x22 # v) =
         Some (\<lparr>m0 = neg @ k @ '':'' @ CHR 0x22 # takeWhile (\<lambda>x. \<not> is_space x) v,
                m1 = Some neg, m2 = Some k,
                m3 = Some (CHR 0x22 # takeWhile (\<lambda>x. \<not> is_space x) v)\<rparr>,
               dropWhile (\<lambda>x. \<not> is_space x) v)"
  by (rule match_at_built [OF assms(1-3) match_value_unterminated [OF assms(4)]])

lemma unterminated_quote_reached:
  assumes "scan_reaches input collected kept (neg @ k @ '':'' @ CHR 0x22 # v)"
    and "neg = '''' \<or> neg = ''-''" and "k \<noteq> []" and "\<forall>c\<in>set k. is_word_char c"
    and "CHR 0x22 \<notin> set v"
  shows "\<exists>ts. parseInput (dropWhile (\<lambda>x. \<not> is_space x) v) = Inr ts \<and>
           parseInput input =
             Inr (collected @
                  \<lparr>key = toLowerCase k,
                   value = (if takeWhile (\<lambda>x. \<not> is_space x) v = [] then []
                            else CHR 0x22 # takeWhile (\<lambda>x. \<not> is_space x) v),
                   negated = (neg = ''-''),
                   raw = neg @ k @ '':'' @ CHR 0x22 # takeWhile (\<lambda>x. \<not> is_space x) v\<rparr> # ts) \<and>
           remove_tokens input = kept @ remove_tokens (dropWhile (\<lambda>x. \<not> is_space x) v)"
proof -
  let ?w = "takeWhile (\<lambda>x. \<not> is_space x) v"
  let ?r = "dropWhile (\<lambda>x. \<not> is_space x) v"
  let ?t = "\<lparr>key = toLowerCase k, value = (if ?w = [] then [] else CHR 0x22 # ?w),
             negated = (neg = ''-''), raw = neg @ k @ '':'' @ CHR 0x22 # ?w\<rparr>"
  note m = unterminated_quote_match [OF assms(2-5)]
  from assms(5) have "CHR 0x22 \<notin> set ?w"
    by (auto dest: set_takeWhileD)
  note t = make_token_open_quote [OF this]
  have "scan_reaches input (collected @ [?t]) kept ?r"
    by (rule scan_reaches.token [OF assms(1) m t])
  from scan_reaches_parse [OF this] show ?thesis
    by simp
qed

text \<open>
  C3. A key followed by a colon and a double quote that is never closed before the end of
  the input still gives a token. In every input in which the scan of the tokenizer comes
  to stand at such a key, \<open>parseInput\<close> returns, after the tokens made before it, a token
  for the key whose value is the quote with the run of non-space characters after it (the
  empty string when the run is empty). Only what follows that run is left for further
  tokens and for the free text, which is the text passed over before the key and what
  remains of the text after the run.
\<close>

theorem unterminated_quote_token:
  assumes "scan_reaches input collected kept (neg @ k @ '':'' @ CHR 0x22 # v)"
    and "neg = '''' \<or> neg = ''-''" and "k \<noteq> []" and "\<forall>c\<in>set k. is_word_char c"
    and "CHR 0x22 \<notin> set v"
  shows "\<exists>ts. parseInput (dropWhile (\<lambda>x. \<not> is_space x) v) = Inr ts \<and>
           parseInput input =
             Inr (collected @
                  \<lparr>key = toLowerCase k,
                   value = (if takeWhile (\<lambda>x. \<not> is_space x) v = [] then []
                            else CHR 0x22 # takeWhile (\<lambda>x. \<not> is_space x) v),
                   negated = (neg = ''-''),
                   raw = neg @ k @ '':'' @ CHR 0x22 # takeWhile (\<lambda>x. \<not> is_space x) v\<rparr> # ts) \<and>
           extractFreeText input =
             collapse_spaces
               (trim (kept @ remove_tokens (dropWhile (\<lambda>x. \<not> is_space x) v)))"
  using unterminated_quote_reached [OF assms] by (auto simp: extractFreeText_def)

text \<open>
  The input \<open>creator:"Jane Doe\<close>, with a quote that is never closed, gives the token
  \<open>creator\<close> with the value \<open>"Jane\<close>, and only \<open>Doe\<close> is free text.
\<close>

theorem unterminated_quote_is_a_token:
  "parseInput ''creator:\"Jane Doe'' =
     Inr [\<lparr>key = ''creator'', value = ''\"Jane'', negated = False, raw = ''creator:\"Jane''\<rparr>] \<and>
   extractFreeText ''creator:\"Jane Doe'' = ''Doe''"
  by code_simp

theorem unterminated_quote_example:
  "scan_reaches ''is:used x -Group:\"a b''
     [\<lparr>key = ''is'', value = ''used'', negated = False, raw = ''is:used''\<rparr>] '' x ''
     ''-Group:\"a b'' \<and>
   parseInput ''is:used x -Group:\"a b'' =
     Inr [\<lparr>key = ''is'', value = ''used'', negated = False, raw = ''is:used''\<rparr>,
          \<lparr>key = ''group'', value = ''\"a'', negated = True, raw = ''-Group:\"a''\<rparr>] \<and>
   extractFreeText ''is:used x -Group:\"a b'' = ''x b''"
proof -
  let ?input = "''is:used x -Group:\"a b''"
  let ?used = "\<lparr>key = ''is'', value = ''used'', negated = False, raw = ''is:used''\<rparr>"
  have m: "match_at ?input =
           Some (\<lparr>m0 = ''is:used'', m1 = Some '''', m2 = Some ''is'', m3 = Some ''used''\<rparr>,
                 '' x -Group:\"a b'')"
    by code_simp
  have t: "make_token \<lparr>m0 = ''is:used'', m1 = Some '''', m2 = Some ''is'', m3 = Some ''used''\<rparr> =
           Inr ?used"
    by code_simp
  have n1: "match_at '' x -Group:\"a b'' = None" and n2: "match_at ''x -Group:\"a b'' = None"
    and n3: "match_at '' -Group:\"a b'' = None"
    by code_simp+
  have "scan_reaches ?input ([] @ [?used]) [] '' x -Group:\"a b''"
    by (rule scan_reaches.token [OF scan_reaches.start m t])
  from scan_reaches.skip [OF this n1] have "scan_reaches ?input ([] @ [?used]) ([] @ '' '') ''x -Group:\"a b''" .
  from scan_reaches.skip [OF this n2]
  have "scan_reaches ?input ([] @ [?used]) (([] @ '' '') @ ''x'') '' -Group:\"a b''" .
  from scan_reaches.skip [OF this n3]
  have "scan_reaches ?input ([] @ [?used]) ((([] @ '' '') @ ''x'') @ '' '') ''-Group:\"a b''" .
  then have reach: "scan_reaches ?input [?used] '' x '' (''-'' @ ''Group'' @ '':'' @ CHR 0x22 # ''a b'')"
    by simp
  have n: "''-'' = '''' \<or> ''-'' = ''-''" and g: "''Group'' \<noteq> []"
    by simp_all
  have k: "\<forall>c\<in>set ''Group''. is_word_char c"
    by (simp add: is_word_char_def)
  have v: "CHR 0x22 \<notin> set ''a b''"
    by simp
  have w: "takeWhile (\<lambda>x. \<not> is_space x) ''a b'' = ''a''"
    and r: "dropWhile (\<lambda>x. \<not> is_space x) ''a b'' = '' b''"
    by (simp_all add: is_space_def)
  have rest: "parseInput '' b'' = Inr []"
    and ft: "collapse_spaces (trim ('' x '' @ remove_tokens '' b'')) = ''x b''"
    by code_simp+
  have low: "toLowerCase ''Group'' = ''group''"
    by code_simp
  from unterminated_quote_token [OF reach n g k v] obtain ts
    where a: "parseInput '' b'' = Inr ts"
      and b: "parseInput ?input =
                Inr ([?used] @ \<lparr>key = ''group'', value = CHR 0x22 # ''a'', negated = (''-'' = ''-''),
                                 raw = ''-'' @ ''Group'' @ '':'' @ CHR 0x22 # ''a''\<rparr> # ts)"
      and c: "extractFreeText ?input = collapse_spaces (trim ('' x '' @ remove_tokens '' b''))"
    unfolding w r low by auto
  from a rest have "ts = []"
    by simp
  with b c ft reach show ?thesis
    by simp
qed

section \<open>No operation throws\<close>





section \<open>Reading back what the serializer wrote\<close>

subsection \<open>One part\<close>

lemma token_part_plain:
  assumes "neg = '''' \<or> neg = ''-''" and "k \<noteq> []" and "\<forall>c\<in>set k. is_word_char c"
    and "plain_value v"
  shows "token_part (neg @ k @ '':'' @ v)
           \<lparr>key = toLowerCase k, value = v, negated = (neg = ''-''), raw = neg @ k @ '':'' @ v\<rparr>"
  unfolding token_part_def
proof (intro allI impI)
  fix rest :: string
  assume rest: "rest = [] \<or> is_space (hd rest)"
  from assms(4) have v: "v \<noteq> []" "\<forall>c\<in>set v. \<not> is_space c" "hd v \<noteq> CHR 0x22"
    by (simp_all add: plain_value_def)
  have "match_value (v @ rest) = Some (v, rest)"
    by (rule match_value_plain [OF v rest])
  from match_at_built [OF assms(1-3) this] make_token_plain [OF v(1,3)]
  show "\<exists>m. match_at ((neg @ k @ '':'' @ v) @ rest) = Some (m, rest) \<and>
            make_token m = Inr \<lparr>key = toLowerCase k, value = v, negated = (neg = ''-''),
                                 raw = neg @ k @ '':'' @ v\<rparr>"
    by simp
qed

lemma token_part_quotable:
  assumes "neg = '''' \<or> neg = ''-''" and "k \<noteq> []" and "\<forall>c\<in>set k. is_word_char c"
    and "quotable_value v"
  shows "token_part (neg @ k @ '':'' @ quote_value v)
           \<lparr>key = toLowerCase k, value = v, negated = (neg = ''-''),
            raw = neg @ k @ '':'' @ quote_value v\<rparr>"
proof (cases "CHR '' '' \<in> set v")
  case True
  with assms(4) have q: "CHR 0x22 \<notin> set v"
    by (simp add: quotable_value_def)
  from True have qv: "quote_value v = CHR 0x22 # v @ [CHR 0x22]"
    by (simp add: quote_value_def includes_str_char)
  show ?thesis
    unfolding token_part_def qv
  proof (intro allI impI)
    fix rest :: string
    have "match_value (CHR 0x22 # v @ CHR 0x22 # rest) = Some (CHR 0x22 # v @ [CHR 0x22], rest)"
      by (rule match_value_quoted [OF q])
    from match_at_built [OF assms(1-3) this]
    show "\<exists>m. match_at ((neg @ k @ '':'' @ CHR 0x22 # v @ [CHR 0x22]) @ rest) = Some (m, rest) \<and>
              make_token m = Inr \<lparr>key = toLowerCase k, value = v, negated = (neg = ''-''),
                                   raw = neg @ k @ '':'' @ CHR 0x22 # v @ [CHR 0x22]\<rparr>"
      by (simp add: make_token_quoted)
  qed
next
  case False
  with assms(4) have "plain_value v"
    by (simp add: quotable_value_def)
  moreover from False have "quote_value v = v"
    by (simp add: quote_value_def includes_str_char)
  ultimately show ?thesis
    using token_part_plain [OF assms(1-3)] by simp
qed

subsection \<open>The parts in a row\<close>

lemma spaced_simps:
  "spaced [] = []" "spaced (p # ps) = CHR '' '' # p @ spaced ps"
  "spaced (ps @ qs) = spaced ps @ spaced qs"
  by (simp_all add: spaced_def)

lemma concat_spaced: "concat (map (\<lambda>x. '' '' @ x) ps) = spaced ps"
  by (induction ps) (simp_all add: spaced_def)

lemma join_spaced: "join '' '' ps = tl (spaced ps)"
  by (cases ps) (simp_all add: join_def concat_spaced spaced_simps)

lemma spaced_starts:
  "sfx = [] \<or> is_space (hd sfx) \<Longrightarrow> spaced ps @ sfx = [] \<or> is_space (hd (spaced ps @ sfx))"
  by (cases ps) (auto simp: spaced_simps space_is_space)

lemma parseInput_spaced:
  assumes "list_all2 token_part ps ts" and "sfx = [] \<or> is_space (hd sfx)"
    and "parseInput sfx = Inr us"
  shows "parseInput (spaced ps @ sfx) = Inr (ts @ us)"
  using assms(1)
proof (induction ps ts rule: list_all2_induct)
  case Nil
  with assms(3) show ?case
    by (simp add: spaced_simps)
next
  case (Cons p ps t ts)
  let ?rest = "spaced ps @ sfx"
  have "?rest = [] \<or> is_space (hd ?rest)"
    using assms(2) by (rule spaced_starts)
  with Cons.hyps(1) obtain m where m: "match_at (p @ ?rest) = Some (m, ?rest)"
    and t: "make_token m = Inr t"
    unfolding token_part_def by blast
  have "parseInput (p @ ?rest) = Inr (t # ts @ us)"
    by (rule parseInput_token [OF m t Cons.IH])
  moreover have "parseInput (CHR '' '' # p @ ?rest) = parseInput (p @ ?rest)"
    by (rule parseInput_skip) (rule match_at_space [OF space_is_space])
  ultimately show ?case
    by (simp add: spaced_simps)
qed

lemma remove_tokens_spaced:
  assumes "list_all2 token_part ps ts" and "sfx = [] \<or> is_space (hd sfx)"
  shows "remove_tokens (spaced ps @ sfx) = replicate (length ps) CHR '' '' @ remove_tokens sfx"
  using assms(1)
proof (induction ps ts rule: list_all2_induct)
  case Nil
  show ?case
    by (simp add: spaced_simps)
next
  case (Cons p ps t ts)
  let ?rest = "spaced ps @ sfx"
  have "?rest = [] \<or> is_space (hd ?rest)"
    using assms(2) by (rule spaced_starts)
  with Cons.hyps(1) obtain m where m: "match_at (p @ ?rest) = Some (m, ?rest)"
    unfolding token_part_def by blast
  have "remove_tokens (p @ ?rest) = remove_tokens ?rest"
    by (rule remove_tokens_token [OF m])
  moreover have "remove_tokens (CHR '' '' # p @ ?rest) = CHR '' '' # remove_tokens (p @ ?rest)"
    by (rule remove_tokens_skip) (rule match_at_space [OF space_is_space])
  ultimately show ?case
    using Cons.IH by (simp add: spaced_simps)
qed

lemma parseInput_tl_spaced: "parseInput (tl (spaced ps)) = parseInput (spaced ps)"
proof (cases ps)
  case Nil
  then show ?thesis by (simp add: spaced_simps)
next
  case (Cons p qs)
  have "parseInput (CHR '' '' # p @ spaced qs) = parseInput (p @ spaced qs)"
    by (rule parseInput_skip) (rule match_at_space [OF space_is_space])
  with Cons show ?thesis
    by (simp add: spaced_simps)
qed

lemma extractFreeText_tl_spaced: "extractFreeText (tl (spaced ps)) = extractFreeText (spaced ps)"
proof (cases ps)
  case Nil
  then show ?thesis by (simp add: spaced_simps)
next
  case (Cons p qs)
  have "remove_tokens (CHR '' '' # p @ spaced qs) = CHR '' '' # remove_tokens (p @ spaced qs)"
    by (rule remove_tokens_skip) (rule match_at_space [OF space_is_space])
  moreover have "trim (CHR '' '' # remove_tokens (p @ spaced qs)) = trim (remove_tokens (p @ spaced qs))"
    using trim_leading_spaces [of 1] by simp
  ultimately show ?thesis
    using Cons by (simp add: spaced_simps extractFreeText_def)
qed

text \<open>The tokens first, the search text last: both come back.\<close>

lemma reparse_parts:
  assumes parts: "list_all2 token_part ps ts"
    and none: "exec s = None" and normal: "collapse_spaces (trim s) = s"
  shows "parseInput (join '' '' (ps @ (if s = [] then [] else [s]))) = Inr ts"
    and "extractFreeText (join '' '' (ps @ (if s = [] then [] else [s]))) = s"
proof -
  let ?sfx = "spaced (if s = [] then [] else [s])"
  have sfx: "?sfx = [] \<or> is_space (hd ?sfx)"
    by (simp add: spaced_simps space_is_space)
  have p: "parseInput ?sfx = Inr []"
  proof (cases "s = []")
    case True
    then show ?thesis
      by (simp add: spaced_simps parseInput_no_match match_at_Nil)
  next
    case False
    have "parseInput (CHR '' '' # s) = parseInput s"
      by (rule parseInput_skip) (rule match_at_space [OF space_is_space])
    with False none show ?thesis
      by (simp add: spaced_simps parseInput_no_match)
  qed
  have r: "remove_tokens ?sfx = ?sfx"
  proof (cases "s = []")
    case True
    then show ?thesis
      by (simp add: spaced_simps remove_tokens_none match_at_Nil)
  next
    case False
    have "remove_tokens (CHR '' '' # s) = CHR '' '' # remove_tokens s"
      by (rule remove_tokens_skip) (rule match_at_space [OF space_is_space])
    with False none show ?thesis
      by (simp add: spaced_simps remove_tokens_none)
  qed
  let ?all = "ps @ (if s = [] then [] else [s])"
  have all: "spaced ?all = spaced ps @ ?sfx"
    by (simp only: spaced_simps)
  have "parseInput (join '' '' ?all) = parseInput (spaced ?all)"
    by (simp only: join_spaced parseInput_tl_spaced)
  also have "\<dots> = Inr (ts @ [])"
    unfolding all by (rule parseInput_spaced [OF parts sfx p])
  finally show "parseInput (join '' '' ?all) = Inr ts"
    by simp
  have "remove_tokens (spaced ps @ ?sfx) = replicate (length ps) CHR '' '' @ ?sfx"
    using remove_tokens_spaced [OF parts sfx] r by simp
  also have "\<dots> = replicate (length ps + (if s = [] then 0 else 1)) CHR '' '' @ s"
    by (simp add: spaced_simps replicate_append_same)
  finally have "extractFreeText (spaced ?all) = collapse_spaces (trim s)"
    unfolding all by (simp add: extractFreeText_def trim_leading_spaces)
  moreover have "extractFreeText (join '' '' ?all) = extractFreeText (spaced ?all)"
    by (simp only: join_spaced extractFreeText_tl_spaced)
  ultimately show "extractFreeText (join '' '' ?all) = s"
    using normal by simp
qed

subsection \<open>The tokens of a state, through tokensToFilters\<close>

lemma fold_groups:
  "foldl (tokensToFilters_step cu) g
     (map (\<lambda>v. \<lparr>key = ''group'', value = v, negated = False, raw = r v\<rparr>) vs) =
   g\<lparr>groups := groups g @ vs\<rparr>"
  by (induction vs arbitrary: g) (simp_all add: tokensToFilters_step_def)

lemma fold_excludeGroups:
  "foldl (tokensToFilters_step cu) g
     (map (\<lambda>v. \<lparr>key = ''group'', value = v, negated = True, raw = r v\<rparr>) vs) =
   g\<lparr>excludeGroups := excludeGroups g @ vs\<rparr>"
  by (induction vs arbitrary: g) (simp_all add: tokensToFilters_step_def)

lemma fold_scalers:
  "foldl (tokensToFilters_step cu) g
     (map (\<lambda>v. \<lparr>key = ''scaler'', value = v, negated = False, raw = r v\<rparr>) vs) =
   g\<lparr>scalers := scalers g @ vs\<rparr>"
  by (induction vs arbitrary: g) (simp_all add: tokensToFilters_step_def)

lemma fold_excludeScalers:
  "foldl (tokensToFilters_step cu) g
     (map (\<lambda>v. \<lparr>key = ''scaler'', value = v, negated = True, raw = r v\<rparr>) vs) =
   g\<lparr>excludeScalers := excludeScalers g @ vs\<rparr>"
  by (induction vs arbitrary: g) (simp_all add: tokensToFilters_step_def)

lemma fold_pipelines:
  "foldl (tokensToFilters_step cu) g
     (map (\<lambda>v. \<lparr>key = ''pipeline'', value = v, negated = False, raw = r v\<rparr>) vs) =
   g\<lparr>pipelines := pipelines g @ vs\<rparr>"
  by (induction vs arbitrary: g) (simp_all add: tokensToFilters_step_def)

lemma fold_excludePipelines:
  "foldl (tokensToFilters_step cu) g
     (map (\<lambda>v. \<lparr>key = ''pipeline'', value = v, negated = True, raw = r v\<rparr>) vs) =
   g\<lparr>excludePipelines := excludePipelines g @ vs\<rparr>"
  by (induction vs arbitrary: g) (simp_all add: tokensToFilters_step_def)

lemma fold_creators:
  assumes "cu = '''' \<or> cu = ''@me'' \<or> ''@me'' \<notin> set vs"
  shows "foldl (tokensToFilters_step cu) g
           (map (\<lambda>v. \<lparr>key = ''creator'', value = v, negated = False, raw = r v\<rparr>) vs) =
         g\<lparr>creators := creators g @ vs\<rparr>"
  using assms by (induction vs arbitrary: g) (auto simp: tokensToFilters_step_def)

lemma fold_excludeCreators:
  assumes "cu = '''' \<or> cu = ''@me'' \<or> ''@me'' \<notin> set vs"
  shows "foldl (tokensToFilters_step cu) g
           (map (\<lambda>v. \<lparr>key = ''creator'', value = v, negated = True, raw = r v\<rparr>) vs) =
         g\<lparr>excludeCreators := excludeCreators g @ vs\<rparr>"
  using assms by (induction vs arbitrary: g) (auto simp: tokensToFilters_step_def)

lemma lower_keywords:
  "toLowerCase ''generator'' = ''generator''" "toLowerCase ''used'' = ''used''"
  "toLowerCase ''orphan'' = ''orphan''" "toLowerCase ''is'' = ''is''"
  "toLowerCase ''group'' = ''group''" "toLowerCase ''scaler'' = ''scaler''"
  "toLowerCase ''creator'' = ''creator''" "toLowerCase ''pipeline'' = ''pipeline''"
  by (simp_all add: toLowerCase_def lower_char_def)

lemma fold_generator:
  "generator g = None \<Longrightarrow>
   foldl (tokensToFilters_step cu) g
     (tri_state_tokens t
        \<lparr>key = ''is'', value = ''generator'', negated = False, raw = ''is:generator''\<rparr>
        \<lparr>key = ''is'', value = ''generator'', negated = True, raw = ''-is:generator''\<rparr>) =
   g\<lparr>generator := t\<rparr>"
  by (simp add: tri_state_tokens_def tokensToFilters_step_def lower_keywords
        split: option.split bool.split)

lemma fold_used:
  "used g = None \<Longrightarrow>
   foldl (tokensToFilters_step cu) g
     (tri_state_tokens t
        \<lparr>key = ''is'', value = ''used'', negated = False, raw = ''is:used''\<rparr>
        \<lparr>key = ''is'', value = ''orphan'', negated = False, raw = ''is:orphan''\<rparr>) =
   g\<lparr>used := t\<rparr>"
  by (simp add: tri_state_tokens_def tokensToFilters_step_def lower_keywords
        split: option.split bool.split)

lemma tokensToFilters_written:
  assumes "cu = '''' \<or> cu = ''@me'' \<or> ''@me'' \<notin> set (creators f @ excludeCreators f)"
  shows "tokensToFilters (written_tokens f) (search f) cu = f"
proof -
  from assms have c: "cu = '''' \<or> cu = ''@me'' \<or> ''@me'' \<notin> set (creators f)"
    and e: "cu = '''' \<or> cu = ''@me'' \<or> ''@me'' \<notin> set (excludeCreators f)"
    by auto
  show ?thesis
    unfolding tokensToFilters_def written_tokens_def foldl_append
    by (simp add: fold_groups fold_excludeGroups fold_scalers fold_excludeScalers
          fold_generator fold_creators [OF c] fold_excludeCreators [OF e] fold_used
          fold_pipelines fold_excludePipelines DEFAULT_FILTER_STATE_def)
qed

subsection \<open>The parts of a state are token parts\<close>

lemma parts_quotable:
  assumes "neg = '''' \<or> neg = ''-''" and "k \<noteq> []" and "\<forall>c\<in>set k. is_word_char c"
    and "toLowerCase k = k" and "\<forall>v\<in>set vs. quotable_value v"
  shows "list_all2 token_part
           (map (\<lambda>v. neg @ k @ '':'' @ quote_value v) vs)
           (map (\<lambda>v. \<lparr>key = k, value = v, negated = (neg = ''-''),
                       raw = neg @ k @ '':'' @ quote_value v\<rparr>) vs)"
  using assms(5) token_part_quotable [OF assms(1-3)]
  by (simp add: list_all2_map1 list_all2_map2 list_all2_same assms(4))

lemma parts_plain:
  assumes "neg = '''' \<or> neg = ''-''" and "k \<noteq> []" and "\<forall>c\<in>set k. is_word_char c"
    and "toLowerCase k = k" and "\<forall>v\<in>set vs. plain_value v"
  shows "list_all2 token_part
           (map (\<lambda>v. neg @ k @ '':'' @ v) vs)
           (map (\<lambda>v. \<lparr>key = k, value = v, negated = (neg = ''-''), raw = neg @ k @ '':'' @ v\<rparr>) vs)"
  using assms(5) token_part_plain [OF assms(1-3)]
  by (simp add: list_all2_map1 list_all2_map2 list_all2_same assms(4))

lemma key_words:
  "\<forall>c\<in>set ''group''. is_word_char c" "\<forall>c\<in>set ''scaler''. is_word_char c"
  "\<forall>c\<in>set ''creator''. is_word_char c" "\<forall>c\<in>set ''pipeline''. is_word_char c"
  "\<forall>c\<in>set ''is''. is_word_char c"
  by (simp_all add: is_word_char_def)

lemma plain_keywords:
  "plain_value ''generator''" "plain_value ''used''" "plain_value ''orphan''"
  by (simp_all add: plain_value_def is_space_def)

lemma parts_generator:
  "list_all2 token_part (tri_state_part t ''is:generator'' ''-is:generator'')
     (tri_state_tokens t
        \<lparr>key = ''is'', value = ''generator'', negated = False, raw = ''is:generator''\<rparr>
        \<lparr>key = ''is'', value = ''generator'', negated = True, raw = ''-is:generator''\<rparr>)"
  using token_part_plain [of "''''" "''is''" "''generator''"]
    token_part_plain [of "''-''" "''is''" "''generator''"]
  by (simp add: tri_state_part_def tri_state_tokens_def key_words plain_keywords lower_keywords
        split: option.split bool.split)

lemma parts_used:
  "list_all2 token_part (tri_state_part t ''is:used'' ''is:orphan'')
     (tri_state_tokens t
        \<lparr>key = ''is'', value = ''used'', negated = False, raw = ''is:used''\<rparr>
        \<lparr>key = ''is'', value = ''orphan'', negated = False, raw = ''is:orphan''\<rparr>)"
  using token_part_plain [of "''''" "''is''" "''used''"]
    token_part_plain [of "''''" "''is''" "''orphan''"]
  by (simp add: tri_state_part_def tri_state_tokens_def key_words plain_keywords lower_keywords
        split: option.split bool.split)

lemma ordered_parts_split:
  "ordered_parts f = token_parts f @ (if search f = [] then [] else [search f])"
  by (simp add: ordered_parts_def token_parts_def)

lemma token_parts_written:
  assumes "reparsable f"
  shows "list_all2 token_part (token_parts f) (written_tokens f)"
proof -
  from assms have q: "\<forall>v\<in>set (groups f). quotable_value v"
    "\<forall>v\<in>set (excludeGroups f). quotable_value v"
    "\<forall>v\<in>set (creators f). quotable_value v" "\<forall>v\<in>set (excludeCreators f). quotable_value v"
    "\<forall>v\<in>set (pipelines f). quotable_value v" "\<forall>v\<in>set (excludePipelines f). quotable_value v"
    and p: "\<forall>v\<in>set (scalers f). plain_value v" "\<forall>v\<in>set (excludeScalers f). plain_value v"
    by (simp_all add: reparsable_def)
  note quoted =
    parts_quotable [of "''''" "''group''", OF _ _ _ _ q(1)]
    parts_quotable [of "''-''" "''group''", OF _ _ _ _ q(2)]
    parts_quotable [of "''''" "''creator''", OF _ _ _ _ q(3)]
    parts_quotable [of "''-''" "''creator''", OF _ _ _ _ q(4)]
    parts_quotable [of "''''" "''pipeline''", OF _ _ _ _ q(5)]
    parts_quotable [of "''-''" "''pipeline''", OF _ _ _ _ q(6)]
  note plain =
    parts_plain [of "''''" "''scaler''", OF _ _ _ _ p(1)]
    parts_plain [of "''-''" "''scaler''", OF _ _ _ _ p(2)]
  show ?thesis
    unfolding token_parts_def written_tokens_def
    by (intro list_all2_appendI parts_generator parts_used)
       (use quoted plain in \<open>simp_all add: key_words lower_keywords list_all2_map1 list_all2_map2\<close>)
qed

subsection \<open>What a parse leaves in the state\<close>

lemma step_search: "search (tokensToFilters_step cu g t) = search g"
  by (simp add: tokensToFilters_step_def Let_def)

lemma tokensToFilters_search: "search (tokensToFilters ts ft cu) = ft"
  by (induction ts rule: rev_induct)
     (simp_all add: tokensToFilters_snoc step_search, simp add: tokensToFilters_def)

lemma step_me:
  assumes "cu = '''' \<or> cu = ''@me'' \<or> ''@me'' \<notin> set (creators g @ excludeCreators g)"
  shows "cu = '''' \<or> cu = ''@me'' \<or>
         ''@me'' \<notin> set (creators (tokensToFilters_step cu g t) @
                         excludeCreators (tokensToFilters_step cu g t))"
  using assms by (auto simp: tokensToFilters_step_def Let_def)

lemma tokensToFilters_me:
  "cu = '''' \<or> cu = ''@me'' \<or>
   ''@me'' \<notin> set (creators (tokensToFilters ts ft cu) @ excludeCreators (tokensToFilters ts ft cu))"
proof (induction ts rule: rev_induct)
  case Nil
  show ?case
    by (simp add: tokensToFilters_def DEFAULT_FILTER_STATE_def)
next
  case (snoc t ts)
  then show ?case
    unfolding tokensToFilters_snoc by (rule step_me)
qed

subsection \<open>The round trip\<close>

lemma print_parse:
  assumes "reparsable f" and "collapse_spaces (trim (search f)) = search f"
    and "cu = '''' \<or> cu = ''@me'' \<or> ''@me'' \<notin> set (creators f @ excludeCreators f)"
  shows "parseQueryString (filtersToQueryString f) cu = Inr f"
proof -
  from assms(1) have none: "exec (search f) = None"
    by (simp add: reparsable_def)
  have s: "filtersToQueryString f =
           join '' '' (token_parts f @ (if search f = [] then [] else [search f]))"
    by (simp only: filtersToQueryString_parts ordered_parts_split)
  note parts = token_parts_written [OF assms(1)]
  have "parseInput (filtersToQueryString f) = Inr (written_tokens f)"
    unfolding s by (rule reparse_parts(1) [OF parts none assms(2)])
  moreover have "extractFreeText (filtersToQueryString f) = search f"
    unfolding s by (rule reparse_parts(2) [OF parts none assms(2)])
  ultimately show ?thesis
    by (simp add: parseQueryString_def tokensToFilters_written [OF assms(3)])
qed

text \<open>
  C1. Parsing a query string, serializing the filter state and parsing again gives the
  first filter state again, sequences in the same order, whenever the first parse is
  reparsable: its group, creator and pipeline values are not empty and either hold a space
  and no double quote, or hold no white space and do not start with a double quote; its
  scaler values are not empty, hold no white space and do not start with a double quote;
  and the tokenizer finds no token inside its free text.
\<close>

theorem reparse_round_trip:
  assumes "parseQueryString s currentUser = Inr f" and "reparsable f"
  shows "parseQueryString (filtersToQueryString f) currentUser = parseQueryString s currentUser"
proof -
  obtain ts where ts: "parseInput s = Inr ts"
    using parseInput_total by blast
  with assms(1) have f: "f = tokensToFilters ts (extractFreeText s) currentUser"
    by (simp add: parseQueryString_def)
  then have "search f = extractFreeText s"
    by (simp add: tokensToFilters_search)
  then have normal: "collapse_spaces (trim (search f)) = search f"
    by (simp add: extractFreeText_normal)
  have me: "currentUser = '''' \<or> currentUser = ''@me'' \<or>
            ''@me'' \<notin> set (creators f @ excludeCreators f)"
    unfolding f by (rule tokensToFilters_me)
  from print_parse [OF assms(2) normal me] assms(1) show ?thesis
    by simp
qed

text \<open>
  The query string \<open>group:""\<close> parses to the one group \<open>""\<close>, which is written \<open>group:\<close>
  and read back as free text: the two states differ, also up to the order of sequences.
\<close>

theorem empty_value_breaks_round_trip:
  "parseQueryString ''group:\"\"'' '''' = Inr (DEFAULT_FILTER_STATE\<lparr>groups := ['''']\<rparr>) \<and>
   parseQueryString (filtersToQueryString (DEFAULT_FILTER_STATE\<lparr>groups := ['''']\<rparr>)) '''' =
     Inr (DEFAULT_FILTER_STATE\<lparr>search := ''group:''\<rparr>) \<and>
   \<not> same_filters (DEFAULT_FILTER_STATE\<lparr>groups := ['''']\<rparr>)
        (DEFAULT_FILTER_STATE\<lparr>search := ''group:''\<rparr>)"
proof -
  have "parseQueryString ''group:\"\"'' '''' = Inr (DEFAULT_FILTER_STATE\<lparr>groups := ['''']\<rparr>)"
    by code_simp
  moreover have "parseQueryString (filtersToQueryString (DEFAULT_FILTER_STATE\<lparr>groups := ['''']\<rparr>)) '''' =
      Inr (DEFAULT_FILTER_STATE\<lparr>search := ''group:''\<rparr>)"
    by code_simp
  moreover have "\<not> same_filters (DEFAULT_FILTER_STATE\<lparr>groups := ['''']\<rparr>)
      (DEFAULT_FILTER_STATE\<lparr>search := ''group:''\<rparr>)"
    by (simp add: same_filters_def DEFAULT_FILTER_STATE_def)
  ultimately show ?thesis
    by blast
qed

theorem reparse_round_trip_example:
  "parseQueryString ''  free -creator:\"Jane Doe\"  GROUP:alpha is:orphan  text '' ''bob'' =
     Inr (DEFAULT_FILTER_STATE\<lparr>search := ''free text'', groups := [''alpha''],
            excludeCreators := [''Jane Doe''], used := Some False\<rparr>) \<and>
   filtersToQueryString (DEFAULT_FILTER_STATE\<lparr>search := ''free text'', groups := [''alpha''],
            excludeCreators := [''Jane Doe''], used := Some False\<rparr>) =
     ''group:alpha -creator:\"Jane Doe\" is:orphan free text'' \<and>
   parseQueryString ''group:alpha -creator:\"Jane Doe\" is:orphan free text'' ''bob'' =
     Inr (DEFAULT_FILTER_STATE\<lparr>search := ''free text'', groups := [''alpha''],
            excludeCreators := [''Jane Doe''], used := Some False\<rparr>)"
proof -
  let ?s = "''  free -creator:\"Jane Doe\"  GROUP:alpha is:orphan  text ''"
  let ?f = "DEFAULT_FILTER_STATE\<lparr>search := ''free text'', groups := [''alpha''],
              excludeCreators := [''Jane Doe''], used := Some False\<rparr>"
  have p: "parseQueryString ?s ''bob'' = Inr ?f"
    by code_simp
  have "exec ''free text'' = None"
    by code_simp
  then have r: "reparsable ?f"
    by (simp add: reparsable_def DEFAULT_FILTER_STATE_def quotable_value_def plain_value_def
          is_space_def)
  have q: "filtersToQueryString ?f = ''group:alpha -creator:\"Jane Doe\" is:orphan free text''"
    by code_simp
  from reparse_round_trip [OF p r] p q show ?thesis
    by simp
qed

end
